theory Spec2Isabelle
  imports Main "HOL-Library.Char_ord" "HOL-Library.List_Lexorder" "HOL-Library.Multiset"
begin

section \<open>Graph Store (core.py)\<close>

text \<open>
  Python objects are modelled by references into heaps held by the passage record.
  Node and Edge objects compare by identity in core.py (neither class defines
  \<^verbatim>\<open>__eq__\<close>), so a node or an edge is a reference. A Layer object is
  identified by its ID, the key under which the passage's dict holds it (layers are
  never removed). The list objects \<^verbatim>\<open>_all\<close> and \<^verbatim>\<open>_heads\<close> of a layer
  live in a heap of list objects, since the accessors hand lists to the caller; the
  lists \<^verbatim>\<open>_outgoing\<close> and \<^verbatim>\<open>_incoming\<close> never leave their node and are
  held by value. All elements belong to the one passage. A node ID is the pair of its
  layer part and its unique part (the string \<^verbatim>\<open>layer.unique\<close> of the source, whose
  parts hold no separator). Ordering keys are the defaults \<^verbatim>\<open>id_orderkey\<close> and
  \<^verbatim>\<open>edge_id_orderkey\<close>; the \<^verbatim>\<open>extra\<close> dicts are left out.
\<close>

type_synonym ref = nat
type_synonym attrs = "string \<rightharpoonup> string"
type_synonym node_id = "string \<times> string"

datatype error =
    FrozenPassageError
  | DuplicateIdError
  | MissingNodeError
  | KeyError
  | ValueError
  | IndexError
  | AssertionError string
  | RecursionError
  | AttributeError
  | TypeError
  | InvalidAction

record edge =
  e_tag :: string
  e_parent :: ref
  e_child :: ref
  e_attrib :: attrs

record node =
  n_ID :: node_id
  n_tag :: string
  n_attrib :: attrs
  n_outgoing :: "ref list"
  n_incoming :: "ref list"

record layer =
  l_attrib :: attrs
  l_all :: ref
  l_heads :: ref

record passage =
  p_ID :: string
  p_attrib :: attrs
  p_layers :: "string \<rightharpoonup> layer"
  p_nodes :: "node_id \<rightharpoonup> ref"
  frozen :: bool
  node_heap :: "ref \<rightharpoonup> node"
  edge_heap :: "ref \<rightharpoonup> edge"
  list_heap :: "ref \<rightharpoonup> ref list"
  next_ref :: ref

type_synonym 'a outcome = "(error + 'a) \<times> passage"

definition UNIQUE_ID_MAX_DIGITS :: nat where
  "UNIQUE_ID_MAX_DIGITS = 5"

definition the_node :: "passage \<Rightarrow> ref \<Rightarrow> node" where
  "the_node p r = the (node_heap p r)"

definition the_edge :: "passage \<Rightarrow> ref \<Rightarrow> edge" where
  "the_edge p r = the (edge_heap p r)"

definition the_layer :: "passage \<Rightarrow> string \<Rightarrow> layer" where
  "the_layer p lid = the (p_layers p lid)"

definition get_list :: "passage \<Rightarrow> ref \<Rightarrow> ref list" where
  "get_list p r = (case list_heap p r of Some xs \<Rightarrow> xs | None \<Rightarrow> [])"

definition set_list :: "ref \<Rightarrow> ref list \<Rightarrow> passage \<Rightarrow> passage" where
  "set_list r xs p = p\<lparr>list_heap := (list_heap p)(r \<mapsto> xs)\<rparr>"

definition upd_node :: "ref \<Rightarrow> (node \<Rightarrow> node) \<Rightarrow> passage \<Rightarrow> passage" where
  "upd_node r f p = p\<lparr>node_heap := (node_heap p)(r \<mapsto> f (the_node p r))\<rparr>"

text \<open>\<^verbatim>\<open>id_orderkey\<close>: the layer part, a space, the unique part right-aligned in
  \<^verbatim>\<open>UNIQUE_ID_MAX_DIGITS\<close> columns.\<close>

definition id_orderkey :: "passage \<Rightarrow> ref \<Rightarrow> string" where
  "id_orderkey p nd =
     (case n_ID (the_node p nd) of
        (layer, unique) \<Rightarrow>
          layer @ '' '' @ replicate (UNIQUE_ID_MAX_DIGITS - length unique) CHR '' '' @ unique)"

definition edge_id_orderkey :: "passage \<Rightarrow> ref \<Rightarrow> string" where
  "edge_id_orderkey p e =
     id_orderkey p (e_parent (the_edge p e)) @ ''->'' @ id_orderkey p (e_child (the_edge p e))"

text \<open>An operation returns its result, or the exception it raised, together with the
  passage as the call left it. \<^verbatim>\<open>bind\<close> runs the rest of a method after a call that
  can raise.\<close>

fun bind :: "'a outcome \<Rightarrow> ('a \<Rightarrow> passage \<Rightarrow> 'b outcome) \<Rightarrow> 'b outcome" where
  "bind (Inl e, p) f = (Inl e, p)"
| "bind (Inr x, p) f = f x p"

text \<open>The decorator \<^verbatim>\<open>ModifyPassage\<close>: the frozen check in front of the call.\<close>

definition ModifyPassage :: "(passage \<Rightarrow> unit outcome) \<Rightarrow> passage \<Rightarrow> unit outcome" where
  "ModifyPassage fn p = (if frozen p then (Inl FrozenPassageError, p) else fn p)"

subsection \<open>Attribute dictionaries\<close>

datatype element = PassageEl | LayerEl string | NodeEl ref | EdgeEl ref

definition AttributeDict_init :: "attrs option \<Rightarrow> attrs" where
  "AttributeDict_init mapping = (case mapping of None \<Rightarrow> Map.empty | Some m \<Rightarrow> m)"

definition attrib_of :: "passage \<Rightarrow> element \<Rightarrow> attrs" where
  "attrib_of p el =
     (case el of
        PassageEl \<Rightarrow> p_attrib p
      | LayerEl lid \<Rightarrow> l_attrib (the_layer p lid)
      | NodeEl r \<Rightarrow> n_attrib (the_node p r)
      | EdgeEl r \<Rightarrow> e_attrib (the_edge p r))"

definition set_attrib :: "element \<Rightarrow> attrs \<Rightarrow> passage \<Rightarrow> passage" where
  "set_attrib el a p =
     (case el of
        PassageEl \<Rightarrow> p\<lparr>p_attrib := a\<rparr>
      | LayerEl lid \<Rightarrow> p\<lparr>p_layers := (p_layers p)(lid \<mapsto> (the_layer p lid)\<lparr>l_attrib := a\<rparr>)\<rparr>
      | NodeEl r \<Rightarrow> p\<lparr>node_heap := (node_heap p)(r \<mapsto> (the_node p r)\<lparr>n_attrib := a\<rparr>)\<rparr>
      | EdgeEl r \<Rightarrow> p\<lparr>edge_heap := (edge_heap p)(r \<mapsto> (the_edge p r)\<lparr>e_attrib := a\<rparr>)\<rparr>)"

definition AttributeDict_getitem :: "element \<Rightarrow> string \<Rightarrow> passage \<Rightarrow> error + string" where
  "AttributeDict_getitem el key p =
     (case attrib_of p el key of None \<Rightarrow> Inl KeyError | Some v \<Rightarrow> Inr v)"

definition AttributeDict_get :: "element \<Rightarrow> string \<Rightarrow> string option \<Rightarrow> passage \<Rightarrow> string option" where
  "AttributeDict_get el key dflt p =
     (case attrib_of p el key of None \<Rightarrow> dflt | Some v \<Rightarrow> Some v)"

definition setitem_fn :: "element \<Rightarrow> string \<Rightarrow> string \<Rightarrow> passage \<Rightarrow> unit outcome" where
  "setitem_fn el key v p = (Inr (), set_attrib el ((attrib_of p el)(key \<mapsto> v)) p)"

definition AttributeDict_setitem :: "element \<Rightarrow> string \<Rightarrow> string \<Rightarrow> passage \<Rightarrow> unit outcome" where
  "AttributeDict_setitem el key v = ModifyPassage (setitem_fn el key v)"

definition delitem_fn :: "element \<Rightarrow> string \<Rightarrow> passage \<Rightarrow> unit outcome" where
  "delitem_fn el key p =
     (if attrib_of p el key = None then (Inl KeyError, p)
      else (Inr (), set_attrib el ((attrib_of p el)(key := None)) p))"

definition AttributeDict_delitem :: "element \<Rightarrow> string \<Rightarrow> passage \<Rightarrow> unit outcome" where
  "AttributeDict_delitem el key = ModifyPassage (delitem_fn el key)"

subsection \<open>Passage\<close>

definition Passage_init :: "string \<Rightarrow> attrs option \<Rightarrow> passage" where
  "Passage_init ID attrib =
     \<lparr>p_ID = ID, p_attrib = AttributeDict_init attrib, p_layers = Map.empty,
      p_nodes = Map.empty, frozen = False, node_heap = Map.empty, edge_heap = Map.empty,
      list_heap = Map.empty, next_ref = 0\<rparr>"

text \<open>\<^verbatim>\<open>frozen\<close> is a plain instance attribute (set to False by the constructor);
  the caller changes it by assignment, \<^verbatim>\<open>passage.frozen = value\<close>. The class has
  no method that writes it.\<close>

definition Passage_set_frozen :: "bool \<Rightarrow> passage \<Rightarrow> passage" where
  "Passage_set_frozen v p = p\<lparr>frozen := v\<rparr>"

definition add_layer_fn :: "string \<Rightarrow> layer \<Rightarrow> passage \<Rightarrow> unit outcome" where
  "add_layer_fn lid l p =
     (if p_layers p lid \<noteq> None then (Inl DuplicateIdError, p)
      else (Inr (), p\<lparr>p_layers := (p_layers p)(lid \<mapsto> l)\<rparr>))"

definition Passage_add_layer :: "string \<Rightarrow> layer \<Rightarrow> passage \<Rightarrow> unit outcome" where
  "Passage_add_layer lid l = ModifyPassage (add_layer_fn lid l)"

definition add_node_fn :: "ref \<Rightarrow> passage \<Rightarrow> unit outcome" where
  "add_node_fn nd p =
     (if p_nodes p (n_ID (the_node p nd)) \<noteq> None then (Inl DuplicateIdError, p)
      else (Inr (), p\<lparr>p_nodes := (p_nodes p)(n_ID (the_node p nd) \<mapsto> nd)\<rparr>))"

definition Passage_add_node :: "ref \<Rightarrow> passage \<Rightarrow> unit outcome" where
  "Passage_add_node nd = ModifyPassage (add_node_fn nd)"

definition Passage_remove_node :: "ref \<Rightarrow> passage \<Rightarrow> unit outcome" where
  "Passage_remove_node nd p =
     (if p_nodes p (n_ID (the_node p nd)) = None then (Inl KeyError, p)
      else (Inr (), p\<lparr>p_nodes := (p_nodes p)(n_ID (the_node p nd) := None)\<rparr>))"

subsection \<open>Layer\<close>

text \<open>The constructor builds the Layer object with its two empty lists and registers it.
  When \<^verbatim>\<open>_add_layer\<close> raises, the object and its lists are unreachable.\<close>

definition alloc_layer_lists :: "passage \<Rightarrow> passage" where
  "alloc_layer_lists p =
     p\<lparr>list_heap := (list_heap p)(next_ref p \<mapsto> [], Suc (next_ref p) \<mapsto> []),
       next_ref := Suc (Suc (next_ref p))\<rparr>"

definition Layer_init :: "string \<Rightarrow> attrs option \<Rightarrow> passage \<Rightarrow> unit outcome" where
  "Layer_init ID attrib p =
     (if frozen p then (Inl FrozenPassageError, p)
      else Passage_add_layer ID
             \<lparr>l_attrib = AttributeDict_init attrib, l_all = next_ref p, l_heads = Suc (next_ref p)\<rparr>
             (alloc_layer_lists p))"

text \<open>\<^verbatim>\<open>lst.sort(key=self._orderkey)\<close>, \<^verbatim>\<open>lst.append(x)\<close> and
  \<^verbatim>\<open>lst.remove(x)\<close> on a list object of the heap.\<close>

definition list_sort :: "ref \<Rightarrow> passage \<Rightarrow> passage" where
  "list_sort r p = set_list r (sort_key (id_orderkey p) (get_list p r)) p"

definition list_append :: "ref \<Rightarrow> ref \<Rightarrow> passage \<Rightarrow> passage" where
  "list_append r x p = set_list r (get_list p r @ [x]) p"

definition list_remove :: "ref \<Rightarrow> ref \<Rightarrow> passage \<Rightarrow> unit outcome" where
  "list_remove r x p =
     (if x \<in> set (get_list p r) then (Inr (), set_list r (remove1 x (get_list p r)) p)
      else (Inl ValueError, p))"

text \<open>The accessors \<^verbatim>\<open>all\<close> and \<^verbatim>\<open>heads\<close> return \<^verbatim>\<open>self._all[:]\<close> and
  \<^verbatim>\<open>self._heads[:]\<close>: a new list object with the same elements.\<close>

definition list_copy :: "ref \<Rightarrow> passage \<Rightarrow> ref \<times> passage" where
  "list_copy r p =
     (next_ref p,
      p\<lparr>list_heap := (list_heap p)(next_ref p \<mapsto> get_list p r), next_ref := Suc (next_ref p)\<rparr>)"

definition Layer_all :: "string \<Rightarrow> passage \<Rightarrow> ref \<times> passage" where
  "Layer_all lid p = list_copy (l_all (the_layer p lid)) p"

definition Layer_heads :: "string \<Rightarrow> passage \<Rightarrow> ref \<times> passage" where
  "Layer_heads lid p = list_copy (l_heads (the_layer p lid)) p"

definition Node_parents :: "passage \<Rightarrow> ref \<Rightarrow> ref list" where
  "Node_parents p nd = map (\<lambda>e. e_parent (the_edge p e)) (n_incoming (the_node p nd))"

definition Node_children :: "passage \<Rightarrow> ref \<Rightarrow> ref list" where
  "Node_children p nd = map (\<lambda>e. e_child (the_edge p e)) (n_outgoing (the_node p nd))"

text \<open>\<^verbatim>\<open>node.layer\<close>: the layer named by the layer part of the node's ID, a
  KeyError when the passage has no such layer. The result is the layer's ID.\<close>

definition Node_layer :: "passage \<Rightarrow> ref \<Rightarrow> error + string" where
  "Node_layer p nd =
     (if p_layers p (fst (n_ID (the_node p nd))) = None then Inl KeyError
      else Inr (fst (n_ID (the_node p nd))))"

definition sort_all :: "string \<Rightarrow> passage \<Rightarrow> passage" where
  "sort_all lid p = list_sort (l_all (the_layer p lid)) p"

definition sort_heads :: "string \<Rightarrow> passage \<Rightarrow> passage" where
  "sort_heads lid p = list_sort (l_heads (the_layer p lid)) p"

definition discard_head :: "string \<Rightarrow> ref \<Rightarrow> passage \<Rightarrow> passage" where
  "discard_head lid child p =
     (if child \<in> set (get_list p (l_heads (the_layer p lid)))
      then set_list (l_heads (the_layer p lid))
             (remove1 child (get_list p (l_heads (the_layer p lid)))) p
      else p)"

definition Layer_add_edge :: "string \<Rightarrow> ref \<Rightarrow> passage \<Rightarrow> passage" where
  "Layer_add_edge lid e p =
     sort_heads lid (sort_all lid (discard_head lid (e_child (the_edge p e)) p))"

text \<open>In \<^verbatim>\<open>_remove_edge\<close> the test \<^verbatim>\<open>p.layer != edge.child.layer\<close> compares
  Layer objects, which are the same object exactly when the layer parts of the two
  node IDs are equal.\<close>

definition other_layer :: "passage \<Rightarrow> ref \<Rightarrow> ref \<Rightarrow> bool" where
  "other_layer p child q \<longleftrightarrow> fst (n_ID (the_node p q)) \<noteq> fst (n_ID (the_node p child))"

definition readmit_head :: "string \<Rightarrow> ref \<Rightarrow> passage \<Rightarrow> passage" where
  "readmit_head lid child p =
     (if list_all (other_layer p child) (Node_parents p child)
      then sort_heads lid (list_append (l_heads (the_layer p lid)) child p)
      else p)"

definition Layer_remove_edge :: "string \<Rightarrow> ref \<Rightarrow> passage \<Rightarrow> passage" where
  "Layer_remove_edge lid e p =
     sort_heads lid (sort_all lid (readmit_head lid (e_child (the_edge p e)) p))"

definition Layer_add_node :: "string \<Rightarrow> ref \<Rightarrow> passage \<Rightarrow> passage" where
  "Layer_add_node lid nd p =
     sort_heads lid (list_append (l_heads (the_layer p lid)) nd
       (sort_all lid (list_append (l_all (the_layer p lid)) nd p)))"

definition remove_head :: "string \<Rightarrow> ref \<Rightarrow> unit \<Rightarrow> passage \<Rightarrow> unit outcome" where
  "remove_head lid nd u p = list_remove (l_heads (the_layer p lid)) nd p"

definition Layer_remove_node :: "string \<Rightarrow> ref \<Rightarrow> passage \<Rightarrow> unit outcome" where
  "Layer_remove_node lid nd p =
     bind (list_remove (l_all (the_layer p lid)) nd p) (remove_head lid nd)"

subsection \<open>Node\<close>

text \<open>The constructor allocates the Node object, registers it in the passage and then
  in its layer. When \<^verbatim>\<open>_add_node\<close> raises, the object is unreachable; when the layer
  lookup raises, the node stays registered in the passage.\<close>

definition alloc_node :: "node_id \<Rightarrow> string \<Rightarrow> attrs option \<Rightarrow> passage \<Rightarrow> passage" where
  "alloc_node ID tag attrib p =
     p\<lparr>node_heap := (node_heap p)(next_ref p \<mapsto>
          \<lparr>n_ID = ID, n_tag = tag, n_attrib = AttributeDict_init attrib,
           n_outgoing = [], n_incoming = []\<rparr>),
       next_ref := Suc (next_ref p)\<rparr>"

definition enter_layer :: "ref \<Rightarrow> unit \<Rightarrow> passage \<Rightarrow> ref outcome" where
  "enter_layer nd u p =
     (case Node_layer p nd of
        Inl e \<Rightarrow> (Inl e, p)
      | Inr lid \<Rightarrow> (Inr nd, Layer_add_node lid nd p))"

definition Node_init :: "node_id \<Rightarrow> string \<Rightarrow> attrs option \<Rightarrow> passage \<Rightarrow> ref outcome" where
  "Node_init ID tag attrib p =
     (if frozen p then (Inl FrozenPassageError, p)
      else bind (Passage_add_node (next_ref p) (alloc_node ID tag attrib p))
             (enter_layer (next_ref p)))"

definition Edge_init :: "string \<Rightarrow> ref \<Rightarrow> ref \<Rightarrow> attrs option \<Rightarrow> passage \<Rightarrow> ref outcome" where
  "Edge_init tag parent child attrib p =
     (if frozen p then (Inl FrozenPassageError, p)
      else (Inr (next_ref p),
            p\<lparr>edge_heap := (edge_heap p)(next_ref p \<mapsto>
                 \<lparr>e_tag = tag, e_parent = parent, e_child = child,
                  e_attrib = AttributeDict_init attrib\<rparr>),
              next_ref := Suc (next_ref p)\<rparr>))"

text \<open>\<^verbatim>\<open>node[index]\<close> for a non-negative index: the edge at that place of the
  outgoing list.\<close>

definition Node_getitem :: "passage \<Rightarrow> ref \<Rightarrow> nat \<Rightarrow> error + ref" where
  "Node_getitem p nd i =
     (if i < length (n_outgoing (the_node p nd)) then Inr (n_outgoing (the_node p nd) ! i)
      else Inl IndexError)"

definition set_outgoing :: "ref \<Rightarrow> ref list \<Rightarrow> passage \<Rightarrow> passage" where
  "set_outgoing nd es p =
     p\<lparr>node_heap := (node_heap p)(nd \<mapsto> (the_node p nd)\<lparr>n_outgoing := es\<rparr>)\<rparr>"

definition set_incoming :: "ref \<Rightarrow> ref list \<Rightarrow> passage \<Rightarrow> passage" where
  "set_incoming nd es p =
     p\<lparr>node_heap := (node_heap p)(nd \<mapsto> (the_node p nd)\<lparr>n_incoming := es\<rparr>)\<rparr>"

definition append_outgoing :: "ref \<Rightarrow> ref \<Rightarrow> passage \<Rightarrow> passage" where
  "append_outgoing nd e p = set_outgoing nd (n_outgoing (the_node p nd) @ [e]) p"

definition sort_outgoing :: "ref \<Rightarrow> passage \<Rightarrow> passage" where
  "sort_outgoing nd p =
     set_outgoing nd (sort_key (edge_id_orderkey p) (n_outgoing (the_node p nd))) p"

definition append_incoming :: "ref \<Rightarrow> ref \<Rightarrow> passage \<Rightarrow> passage" where
  "append_incoming nd e p = set_incoming nd (n_incoming (the_node p nd) @ [e]) p"

definition sort_incoming :: "ref \<Rightarrow> passage \<Rightarrow> passage" where
  "sort_incoming nd p =
     set_incoming nd (sort_key (edge_id_orderkey p) (n_incoming (the_node p nd))) p"

text \<open>The end of \<^verbatim>\<open>add\<close>: \<^verbatim>\<open>if self.layer == node.layer: self.layer._add_edge(edge)\<close>.\<close>

definition notify_add :: "ref \<Rightarrow> ref \<Rightarrow> ref \<Rightarrow> passage \<Rightarrow> unit outcome" where
  "notify_add self nd e p =
     (case Node_layer p self of
        Inl er \<Rightarrow> (Inl er, p)
      | Inr ls \<Rightarrow>
          (case Node_layer p nd of
             Inl er \<Rightarrow> (Inl er, p)
           | Inr ln \<Rightarrow> if ls = ln then (Inr (), Layer_add_edge ls e p) else (Inr (), p)))"

definition link_edge :: "ref \<Rightarrow> ref \<Rightarrow> ref \<Rightarrow> passage \<Rightarrow> unit outcome" where
  "link_edge self nd e p =
     notify_add self nd e
       (sort_incoming nd (append_incoming nd e (sort_outgoing self (append_outgoing self e p))))"

definition add_fn :: "ref \<Rightarrow> string \<Rightarrow> ref \<Rightarrow> attrs option \<Rightarrow> passage \<Rightarrow> unit outcome" where
  "add_fn self edge_tag nd edge_attrib p =
     bind (Edge_init edge_tag self nd edge_attrib p) (link_edge self nd)"

definition Node_add :: "ref \<Rightarrow> string \<Rightarrow> ref \<Rightarrow> attrs option \<Rightarrow> passage \<Rightarrow> unit outcome" where
  "Node_add self edge_tag nd edge_attrib = ModifyPassage (add_fn self edge_tag nd edge_attrib)"

text \<open>The argument of \<^verbatim>\<open>remove\<close> is an Edge or a Node. An Edge that is not in the
  outgoing list, like a Node, is looked up among the children; no child is an Edge, so
  for an Edge that lookup finds nothing.\<close>

datatype edge_or_node = AnEdge ref | ANode ref

definition child_is :: "passage \<Rightarrow> ref \<Rightarrow> ref \<Rightarrow> bool" where
  "child_is p c e \<longleftrightarrow> e_child (the_edge p e) = c"

definition resolve_edge :: "passage \<Rightarrow> ref \<Rightarrow> edge_or_node \<Rightarrow> error + ref" where
  "resolve_edge p self x =
     (case x of
        AnEdge e \<Rightarrow>
          if e \<in> set (n_outgoing (the_node p self)) then Inr e else Inl MissingNodeError
      | ANode c \<Rightarrow>
          (case filter (child_is p c) (n_outgoing (the_node p self)) of
             [] \<Rightarrow> Inl MissingNodeError
           | e # _ \<Rightarrow> Inr e))"

text \<open>The end of \<^verbatim>\<open>remove\<close>:
  \<^verbatim>\<open>if self.layer == edge.child.layer: self.layer._remove_edge(edge)\<close>.\<close>

definition notify_remove :: "ref \<Rightarrow> ref \<Rightarrow> passage \<Rightarrow> unit outcome" where
  "notify_remove self e p =
     (case Node_layer p self of
        Inl er \<Rightarrow> (Inl er, p)
      | Inr ls \<Rightarrow>
          (case Node_layer p (e_child (the_edge p e)) of
             Inl er \<Rightarrow> (Inl er, p)
           | Inr lc \<Rightarrow> if ls = lc then (Inr (), Layer_remove_edge ls e p) else (Inr (), p)))"

definition unlink_child :: "ref \<Rightarrow> ref \<Rightarrow> passage \<Rightarrow> unit outcome" where
  "unlink_child self e p =
     (if e \<in> set (n_incoming (the_node p (e_child (the_edge p e))))
      then notify_remove self e
             (set_incoming (e_child (the_edge p e))
                (remove1 e (n_incoming (the_node p (e_child (the_edge p e))))) p)
      else (Inl MissingNodeError, p))"

definition unlink_edge :: "ref \<Rightarrow> ref \<Rightarrow> passage \<Rightarrow> unit outcome" where
  "unlink_edge self e p =
     unlink_child self e (set_outgoing self (remove1 e (n_outgoing (the_node p self))) p)"

definition remove_fn :: "ref \<Rightarrow> edge_or_node \<Rightarrow> passage \<Rightarrow> unit outcome" where
  "remove_fn self x p =
     (case resolve_edge p self x of
        Inl er \<Rightarrow> (Inl er, p)
      | Inr e \<Rightarrow> unlink_edge self e p)"

definition Node_remove :: "ref \<Rightarrow> edge_or_node \<Rightarrow> passage \<Rightarrow> unit outcome" where
  "Node_remove self x = ModifyPassage (remove_fn self x)"

text \<open>\<^verbatim>\<open>destroy\<close> walks \<^verbatim>\<open>self._outgoing\<close> and then \<^verbatim>\<open>self._incoming\<close>
  with a list iterator while \<^verbatim>\<open>remove\<close> deletes from the very list: the iterator
  holds an index, yields the element at that index of the list as it is now, and stops
  when the index reaches the current length.\<close>

lemma the_node_set_list [simp]: "the_node (set_list r xs p) = the_node p"
  by (simp add: the_node_def set_list_def fun_eq_iff)

lemma the_node_list_sort [simp]: "the_node (list_sort r p) = the_node p"
  by (simp add: list_sort_def)

lemma the_node_list_append [simp]: "the_node (list_append r x p) = the_node p"
  by (simp add: list_append_def)

lemma the_node_Layer_remove_edge [simp]: "the_node (Layer_remove_edge lid e p) = the_node p"
  by (simp add: Layer_remove_edge_def readmit_head_def sort_heads_def sort_all_def)

lemma the_node_Layer_add_edge [simp]: "the_node (Layer_add_edge lid e p) = the_node p"
  by (simp add: Layer_add_edge_def discard_head_def sort_heads_def sort_all_def)

lemma the_node_set_outgoing:
  "the_node (set_outgoing a es p) nd =
     (if nd = a then (the_node p a)\<lparr>n_outgoing := es\<rparr> else the_node p nd)"
  by (simp add: the_node_def set_outgoing_def)

lemma the_node_set_incoming:
  "the_node (set_incoming a es p) nd =
     (if nd = a then (the_node p a)\<lparr>n_incoming := es\<rparr> else the_node p nd)"
  by (simp add: the_node_def set_incoming_def)

lemma the_edge_set_outgoing [simp]: "the_edge (set_outgoing a es p) = the_edge p"
  by (simp add: the_edge_def set_outgoing_def fun_eq_iff)

lemma the_edge_set_incoming [simp]: "the_edge (set_incoming a es p) = the_edge p"
  by (simp add: the_edge_def set_incoming_def fun_eq_iff)

lemma notify_remove_the_node:
  "notify_remove self e p = (r, p') \<Longrightarrow> the_node p' = the_node p"
  by (auto simp: notify_remove_def split: sum.splits if_splits)

lemma unlink_edge_lengths:
  "unlink_edge self e p = (r, p') \<Longrightarrow>
     length (n_outgoing (the_node p' nd)) \<le> length (n_outgoing (the_node p nd)) \<and>
     length (n_incoming (the_node p' nd)) \<le> length (n_incoming (the_node p nd))"
  by (auto simp: unlink_edge_def unlink_child_def the_node_set_outgoing the_node_set_incoming
        length_remove1
      dest!: notify_remove_the_node split: if_splits)

lemma Node_remove_lengths:
  "Node_remove self x p = (r, p') \<Longrightarrow>
     length (n_outgoing (the_node p' nd)) \<le> length (n_outgoing (the_node p nd)) \<and>
     length (n_incoming (the_node p' nd)) \<le> length (n_incoming (the_node p nd))"
  by (auto simp: Node_remove_def ModifyPassage_def remove_fn_def
      dest: unlink_edge_lengths split: if_splits sum.splits)

function destroy_outgoing :: "nat \<Rightarrow> ref \<Rightarrow> passage \<Rightarrow> unit outcome" where
  "destroy_outgoing i self p =
     (if i < length (n_outgoing (the_node p self)) then
        (case Node_remove self (AnEdge (n_outgoing (the_node p self) ! i)) p of
           (Inl e, p1) \<Rightarrow> (Inl e, p1)
         | (Inr _, p1) \<Rightarrow> destroy_outgoing (Suc i) self p1)
      else (Inr (), p))"
  by pat_completeness auto
termination
proof (relation "measure (\<lambda>(i, self, p). length (n_outgoing (the_node p self)) - i)", goal_cases)
  case 1
  show ?case by simp
next
  case (2 i self p x1 x2 u)
  then show ?case
    using Node_remove_lengths [of self "AnEdge (n_outgoing (the_node p self) ! i)" p x1 x2 self]
    by auto
qed

function destroy_incoming :: "nat \<Rightarrow> ref \<Rightarrow> passage \<Rightarrow> unit outcome" where
  "destroy_incoming i self p =
     (if i < length (n_incoming (the_node p self)) then
        (case Node_remove (e_parent (the_edge p (n_incoming (the_node p self) ! i)))
                (AnEdge (n_incoming (the_node p self) ! i)) p of
           (Inl e, p1) \<Rightarrow> (Inl e, p1)
         | (Inr _, p1) \<Rightarrow> destroy_incoming (Suc i) self p1)
      else (Inr (), p))"
  by pat_completeness auto
termination
proof (relation "measure (\<lambda>(i, self, p). length (n_incoming (the_node p self)) - i)", goal_cases)
  case 1
  show ?case by simp
next
  case (2 i self p x1 x2 u)
  then show ?case
    using Node_remove_lengths [of "e_parent (the_edge p (n_incoming (the_node p self) ! i))"
        "AnEdge (n_incoming (the_node p self) ! i)" p x1 x2 self]
    by auto
qed

declare destroy_outgoing.simps [simp del]
declare destroy_incoming.simps [simp del]

definition leave_passage :: "ref \<Rightarrow> unit \<Rightarrow> passage \<Rightarrow> unit outcome" where
  "leave_passage self u p = Passage_remove_node self p"

definition leave_layer :: "ref \<Rightarrow> unit \<Rightarrow> passage \<Rightarrow> unit outcome" where
  "leave_layer self u p =
     (case Node_layer p self of
        Inl e \<Rightarrow> (Inl e, p)
      | Inr lid \<Rightarrow> bind (Layer_remove_node lid self p) (leave_passage self))"

definition drop_incoming :: "ref \<Rightarrow> unit \<Rightarrow> passage \<Rightarrow> unit outcome" where
  "drop_incoming self u p = bind (destroy_incoming 0 self p) (leave_layer self)"

definition destroy_fn :: "ref \<Rightarrow> passage \<Rightarrow> unit outcome" where
  "destroy_fn self p = bind (destroy_outgoing 0 self p) (drop_incoming self)"

definition Node_destroy :: "ref \<Rightarrow> passage \<Rightarrow> unit outcome" where
  "Node_destroy self = ModifyPassage (destroy_fn self)"

subsection \<open>Sequences of calls\<close>

text \<open>A caller's program is a sequence of calls of the methods above. A call that
  raises leaves the passage as it was at the raise, and the caller may go on.\<close>

datatype op =
    NewLayer string "attrs option"
  | NewNode node_id string "attrs option"
  | Add ref string ref "attrs option"
  | Remove ref edge_or_node
  | Destroy ref
  | SetAttr element string string
  | DelAttr element string

fun apply_op :: "op \<Rightarrow> passage \<Rightarrow> passage" where
  "apply_op (NewLayer lid a) p = snd (Layer_init lid a p)"
| "apply_op (NewNode ID t a) p = snd (Node_init ID t a p)"
| "apply_op (Add nd t c a) p = snd (Node_add nd t c a p)"
| "apply_op (Remove nd x) p = snd (Node_remove nd x p)"
| "apply_op (Destroy nd) p = snd (Node_destroy nd p)"
| "apply_op (SetAttr el k v) p = snd (AttributeDict_setitem el k v p)"
| "apply_op (DelAttr el k) p = snd (AttributeDict_delitem el k p)"

fun run :: "op list \<Rightarrow> passage \<Rightarrow> passage" where
  "run [] p = p"
| "run (x # xs) p = run xs (apply_op x p)"

text \<open>The passage also takes assignments to its attribute \<^verbatim>\<open>frozen\<close>.\<close>

datatype call = Method op | SetFrozen bool

fun apply_call :: "call \<Rightarrow> passage \<Rightarrow> passage" where
  "apply_call (Method x) p = apply_op x p"
| "apply_call (SetFrozen v) p = Passage_set_frozen v p"

fun run_calls :: "call list \<Rightarrow> passage \<Rightarrow> passage" where
  "run_calls [] p = p"
| "run_calls (c # cs) p = run_calls cs (apply_call c p)"

text \<open>The heads of a layer as the Layer docstring and the specification describe them:
  the members of \<^verbatim>\<open>all\<close> none of whose parents is in the same layer.\<close>

definition heads_spec :: "passage \<Rightarrow> string \<Rightarrow> ref set" where
  "heads_spec p lid =
     {n. n \<in> set (get_list p (l_all (the_layer p lid))) \<and>
         list_all (other_layer p n) (Node_parents p n)}"

text \<open>One layer \<^verbatim>\<open>1\<close> with three nodes \<^verbatim>\<open>1.1\<close>, \<^verbatim>\<open>1.2\<close>, \<^verbatim>\<open>1.3\<close>;
  the layer's lists are the objects 0 and 1, the nodes the objects 2, 3 and 4.\<close>

definition three_nodes :: passage where
  "three_nodes =
     run [NewLayer ''1'' None, NewNode (''1'', ''1'') ''t'' None,
          NewNode (''1'', ''2'') ''t'' None, NewNode (''1'', ''3'') ''t'' None]
       (Passage_init ''p'' None)"

text \<open>Node 2 with the two children 3 and 4 (edges 5 and 6).\<close>

definition two_children :: passage where
  "two_children = run [Add 2 ''A'' 3 None, Add 2 ''A'' 4 None] three_nodes"

text \<open>Node 4 with the two parents 2 and 3 (edges 5 and 6).\<close>

definition two_parents :: passage where
  "two_parents = run [Add 2 ''A'' 4 None, Add 3 ''A'' 4 None] three_nodes"

text \<open>The edge that a call of \<^verbatim>\<open>add\<close> created: the caller finds it in the outgoing list
  (\<^verbatim>\<open>node[i]\<close>), where it was not before the call.\<close>

definition created_edge :: "passage \<Rightarrow> passage \<Rightarrow> ref \<Rightarrow> ref \<Rightarrow> bool" where
  "created_edge p p1 nd e \<longleftrightarrow>
     e \<in> set (n_outgoing (the_node p1 nd)) \<and> e \<notin> set (n_outgoing (the_node p nd))"

text \<open>Node 2 with the child 3 (edge 5), and then with a second edge to it (edge 6).\<close>

definition one_edge :: passage where
  "one_edge = run [Add 2 ''A'' 3 None] three_nodes"

definition second_edge :: passage where
  "second_edge = snd (Node_add 2 ''B'' 3 None one_edge)"

section \<open>Transition System (parser/config.py)\<close>

text \<open>
  A transient Node object is identified by its \<^verbatim>\<open>index\<close>, which the configuration
  assigns once (\<^verbatim>\<open>len(self.nodes)\<close> at creation) and which is also its hash. The
  objects live in a heap keyed by the index; \<^verbatim>\<open>self.nodes\<close>, the stack and the
  buffer are lists of indices. A transient Edge never changes after its creation and is
  held by value; the same value stands in the parent's \<^verbatim>\<open>outgoing\<close> and the child's
  \<^verbatim>\<open>incoming\<close>. The ID of a gold node, \<^verbatim>\<open>layer.k\<close>, is the pair of its layer part
  and the number \<open>k\<close>, which is the node's \<^verbatim>\<open>node_index\<close>. An exception ends the
  parse: a call that raises returns the exception only.
\<close>

type_synonym gold_id = "string \<times> nat"

record tedge =
  te_parent :: nat
  te_child :: nat
  te_tag :: "string option"
  te_remote :: bool

datatype cnode = TerminalNode nat | UnitNode nat

record tnode =
  tn_index :: nat
  tn_text :: "string option"
  tn_node_id :: "gold_id option"
  tn_outgoing :: "tedge list"
  tn_incoming :: "tedge list"
  tn_node :: "cnode option"

datatype tokens = Flat "string list" | Paragraphs "string list list"

record config =
  c_heap :: "nat \<rightharpoonup> tnode"
  c_nodes :: "nat list"
  c_tokens :: tokens
  c_root_id :: "gold_id option"
  c_buffer :: "nat list"
  c_stack :: "nat list"
  c_root :: nat
  c_passage_id :: string

record action =
  a_type :: string
  a_tag :: "string option"
  a_node_id :: "gold_id option"

definition the_tnode :: "(nat \<rightharpoonup> tnode) \<Rightarrow> nat \<Rightarrow> tnode" where
  "the_tnode h n = the (h n)"

definition Node_new :: "nat \<Rightarrow> string option \<Rightarrow> gold_id option \<Rightarrow> tnode" where
  "Node_new i text node_id =
     \<lparr>tn_index = i, tn_text = text, tn_node_id = node_id, tn_outgoing = [], tn_incoming = [],
      tn_node = None\<rparr>"

text \<open>\<^verbatim>\<open>node.node_index\<close>: the number part of the gold ID, when there is one.\<close>

definition node_index :: "tnode \<Rightarrow> nat option" where
  "node_index n = map_option snd (tn_node_id n)"

text \<open>Truth value of \<^verbatim>\<open>node.text\<close>: None and the empty string are false.\<close>

definition has_text :: "tnode \<Rightarrow> bool" where
  "has_text n \<longleftrightarrow> tn_text n \<noteq> None \<and> tn_text n \<noteq> Some []"

text \<open>
  \<^verbatim>\<open>Node.__eq__\<close> compares the texts and then the outgoing lists; list equality
  compares the lengths and then the elements in turn, an element being equal to itself
  without a call; \<^verbatim>\<open>Edge.__eq__\<close> compares the children with \<^verbatim>\<open>Node.__eq__\<close>, then
  the tags, then the remote flags. The recursion descends along the edges; the first
  argument bounds its depth, and None is the recursion that does not bottom out
  (Python's RecursionError on a cyclic graph).
\<close>

function node_eq :: "nat \<Rightarrow> (nat \<rightharpoonup> tnode) \<Rightarrow> nat \<Rightarrow> nat \<Rightarrow> bool option"
  and edges_eq :: "nat \<Rightarrow> (nat \<rightharpoonup> tnode) \<Rightarrow> tedge list \<Rightarrow> tedge list \<Rightarrow> bool option"
  where
    "node_eq 0 h a b = None"
  | "node_eq (Suc k) h a b =
       (if tn_text (the_tnode h a) \<noteq> tn_text (the_tnode h b) then Some False
        else if length (tn_outgoing (the_tnode h a)) \<noteq> length (tn_outgoing (the_tnode h b))
        then Some False
        else edges_eq k h (tn_outgoing (the_tnode h a)) (tn_outgoing (the_tnode h b)))"
  | "edges_eq k h [] fs = Some True"
  | "edges_eq k h (e # es) [] = Some True"
  | "edges_eq k h (e # es) (f # fs) =
       (if e = f then edges_eq k h es fs
        else case node_eq k h (te_child e) (te_child f) of
               None \<Rightarrow> None
             | Some c \<Rightarrow>
                 if c \<and> te_tag e = te_tag f \<and> te_remote e = te_remote f
                 then edges_eq k h es fs else Some False)"
  by pat_completeness auto
termination
  by (relation "measures [\<lambda>x. case x of Inl (k, h, a, b) \<Rightarrow> 2 * k | Inr (k, h, es, fs) \<Rightarrow> 2 * k + 1,
                          \<lambda>x. case x of Inl (k, h, a, b) \<Rightarrow> 0 | Inr (k, h, es, fs) \<Rightarrow> length es]")
    auto

definition edge_eq :: "nat \<Rightarrow> (nat \<rightharpoonup> tnode) \<Rightarrow> tedge \<Rightarrow> tedge \<Rightarrow> bool option" where
  "edge_eq k h e f =
     (case node_eq k h (te_child e) (te_child f) of
        None \<Rightarrow> None
      | Some c \<Rightarrow> Some (c \<and> te_tag e = te_tag f \<and> te_remote e = te_remote f))"

text \<open>\<^verbatim>\<open>edge in lst\<close> for an Edge object that is not yet in any list.\<close>

fun edge_in :: "nat \<Rightarrow> (nat \<rightharpoonup> tnode) \<Rightarrow> tedge \<Rightarrow> tedge list \<Rightarrow> bool option" where
  "edge_in k h e [] = Some False"
| "edge_in k h e (f # fs) =
     (case edge_eq k h f e of
        None \<Rightarrow> None
      | Some c \<Rightarrow> if c then Some True else edge_in k h e fs)"

text \<open>The depth allowed to the comparisons: a path without a cycle has at most as many
  nodes as the configuration.\<close>

definition depth_bound :: "config \<Rightarrow> nat" where
  "depth_bound c = Suc (length (c_nodes c))"

definition add_outgoing :: "tedge \<Rightarrow> (nat \<rightharpoonup> tnode) \<Rightarrow> (nat \<rightharpoonup> tnode)" where
  "add_outgoing e h =
     h(te_parent e \<mapsto> (the_tnode h (te_parent e))
         \<lparr>tn_outgoing := tn_outgoing (the_tnode h (te_parent e)) @ [e]\<rparr>)"

definition add_incoming :: "tedge \<Rightarrow> (nat \<rightharpoonup> tnode) \<Rightarrow> (nat \<rightharpoonup> tnode)" where
  "add_incoming e h =
     h(te_child e \<mapsto> (the_tnode h (te_child e))
         \<lparr>tn_incoming := tn_incoming (the_tnode h (te_child e)) @ [e]\<rparr>)"

text \<open>
  \<^verbatim>\<open>Edge.add\<close> ends with \<^verbatim>\<open>print("    " + str(self))\<close>. \<^verbatim>\<open>Edge.__str__\<close> formats the
  parent and the child with \<^verbatim>\<open>%s\<close>, which calls \<^verbatim>\<open>Node.__str__\<close>, and that returns
  \<^verbatim>\<open>self.text or self.node_id or self.index\<close>: for a node with neither a text nor a
  gold ID the result is the integer index, and Python raises TypeError
  (\<^verbatim>\<open>__str__ returned non-string\<close>). The tag is a string at this point. The exception
  comes after both appends.
\<close>

definition printable :: "tnode \<Rightarrow> bool" where
  "printable n = (if has_text n then True else tn_node_id n \<noteq> None)"

definition print_edge :: "tedge \<Rightarrow> config \<Rightarrow> error + config" where
  "print_edge e c =
     (if printable (the_tnode (c_heap c) (te_parent e)) \<and> printable (the_tnode (c_heap c) (te_child e))
      then Inr c else Inl TypeError)"

definition Edge_add :: "tedge \<Rightarrow> config \<Rightarrow> error + config" where
  "Edge_add e c =
     (if te_tag e = None then Inl (AssertionError ''No tag given for new edge'')
      else
        case node_eq (depth_bound c) (c_heap c) (te_parent e) (te_child e) of
          None \<Rightarrow> Inl RecursionError
        | Some same \<Rightarrow>
            if same then Inl (AssertionError ''Trying to create self-loop edge'')
            else
              (case edge_in (depth_bound c) (c_heap c) e
                      (tn_outgoing (the_tnode (c_heap c) (te_parent e))) of
                 None \<Rightarrow> Inl RecursionError
               | Some twice \<Rightarrow>
                   if twice then Inl (AssertionError ''Trying to create edge twice'')
                   else
                     (case edge_in (depth_bound c) (c_heap c) e
                             (tn_incoming (the_tnode (c_heap c) (te_child e))) of
                        None \<Rightarrow> Inl RecursionError
                      | Some again \<Rightarrow>
                          if again then Inl (AssertionError ''Trying to create edge twice'')
                          else print_edge e
                                 (c\<lparr>c_heap := add_incoming e (add_outgoing e (c_heap c))\<rparr>))))"

definition add_node :: "gold_id option \<Rightarrow> config \<Rightarrow> config" where
  "add_node node_id c =
     c\<lparr>c_heap := (c_heap c)(length (c_nodes c) \<mapsto> Node_new (length (c_nodes c)) None node_id),
       c_nodes := c_nodes c @ [length (c_nodes c)]\<rparr>"

text \<open>The constructor for plain text: a list of paragraphs, each a list of tokens. The
  root is created last and is in neither the stack nor the buffer.\<close>

definition text_nodes :: "string list \<Rightarrow> (nat \<rightharpoonup> tnode)" where
  "text_nodes ts i = (if i < length ts then Some (Node_new i (Some (ts ! i)) None) else None)"

definition Configuration_init :: "string list list \<Rightarrow> string \<Rightarrow> config" where
  "Configuration_init passage passage_id =
     add_node None
       \<lparr>c_heap = text_nodes (concat passage), c_nodes = [0..<length (concat passage)],
        c_tokens = Flat (concat passage), c_root_id = None,
        c_buffer = [0..<length (concat passage)], c_stack = [],
        c_root = length (concat passage), c_passage_id = passage_id\<rparr>"

text \<open>The constructor for a gold passage (training): the passage is seen through the
  list of its layer-0 terminals, each with its text, its ID and its paragraph number;
  \<^verbatim>\<open>ROOT_ID\<close> is imported from a module that is not among the source files and is a
  parameter. \<^verbatim>\<open>groupby\<close> collects the runs of consecutive terminals of the same
  paragraph.\<close>

record terminal =
  t_text :: string
  t_ID :: gold_id
  t_paragraph :: nat

function groupby_paragraph :: "terminal list \<Rightarrow> terminal list list" where
  "groupby_paragraph [] = []"
| "groupby_paragraph (t # ts) =
     (t # takeWhile (\<lambda>u. t_paragraph u = t_paragraph t) ts)
       # groupby_paragraph (dropWhile (\<lambda>u. t_paragraph u = t_paragraph t) ts)"
  by pat_completeness auto
termination
  by (relation "measure length") (auto simp: le_imp_less_Suc length_dropWhile_le)

definition gold_nodes :: "terminal list \<Rightarrow> (nat \<rightharpoonup> tnode)" where
  "gold_nodes ts i =
     (if i < length ts then Some (Node_new i (Some (t_text (ts ! i))) (Some (t_ID (ts ! i))))
      else None)"

definition Configuration_init_passage :: "terminal list \<Rightarrow> gold_id \<Rightarrow> string \<Rightarrow> config" where
  "Configuration_init_passage terminals ROOT_ID passage_id =
     add_node (Some ROOT_ID)
       \<lparr>c_heap = gold_nodes terminals, c_nodes = [0..<length terminals],
        c_tokens = Paragraphs (map (map t_text) (groupby_paragraph terminals)),
        c_root_id = Some ROOT_ID,
        c_buffer = [0..<length terminals], c_stack = [],
        c_root = length terminals, c_passage_id = passage_id\<rparr>"

text \<open>The assertion that closes \<^verbatim>\<open>apply_action\<close>. Nodes hash by their index, so the
  set intersection is by identity.\<close>

definition check_overlap :: "config \<Rightarrow> error + bool \<times> config" where
  "check_overlap c =
     (if list_ex (\<lambda>n. n \<in> set (c_buffer c)) (c_stack c)
      then Inl (AssertionError ''Stack and buffer overlap'')
      else Inr (True, c))"

definition checked :: "error + config \<Rightarrow> error + bool \<times> config" where
  "checked r = (case r of Inl e \<Rightarrow> Inl e | Inr c \<Rightarrow> check_overlap c)"

definition push :: "nat \<Rightarrow> error + config \<Rightarrow> error + config" where
  "push n r = (case r of Inl e \<Rightarrow> Inl e | Inr c \<Rightarrow> Inr (c\<lparr>c_stack := c_stack c @ [n]\<rparr>))"

definition new_edge :: "nat \<Rightarrow> nat \<Rightarrow> string option \<Rightarrow> bool \<Rightarrow> tedge" where
  "new_edge parent child tag remote =
     \<lparr>te_parent = parent, te_child = child, te_tag = tag, te_remote = remote\<rparr>"

definition do_NODE :: "action \<Rightarrow> config \<Rightarrow> error + config" where
  "do_NODE a c =
     (if c_buffer c = [] then Inl IndexError
      else push (length (c_nodes c))
             (Edge_add (new_edge (length (c_nodes c)) (hd (c_buffer c)) (a_tag a) False)
                (add_node (a_node_id a) c)))"

definition do_EDGE :: "action \<Rightarrow> bool \<Rightarrow> config \<Rightarrow> error + config" where
  "do_EDGE a remote c =
     (if c_stack c = [] \<or> c_buffer c = [] then Inl IndexError
      else Edge_add (new_edge (last (c_stack c)) (hd (c_buffer c)) (a_tag a) remote) c)"

definition do_ROOT :: "action \<Rightarrow> config \<Rightarrow> error + config" where
  "do_ROOT a c =
     (if c_stack c = [] then Inl IndexError
      else Edge_add (new_edge (c_root c) (last (c_stack c)) (a_tag a) False)
             (c\<lparr>c_stack := butlast (c_stack c)\<rparr>))"

definition do_REDUCE :: "config \<Rightarrow> error + config" where
  "do_REDUCE c =
     (if c_stack c = [] then Inl IndexError else Inr (c\<lparr>c_stack := butlast (c_stack c)\<rparr>))"

definition do_SHIFT :: "config \<Rightarrow> error + config" where
  "do_SHIFT c =
     (if c_buffer c = [] then Inl IndexError
      else Inr (c\<lparr>c_stack := c_stack c @ [hd (c_buffer c)], c_buffer := tl (c_buffer c)\<rparr>))"

definition do_SWAP :: "config \<Rightarrow> error + config" where
  "do_SWAP c =
     (if length (c_stack c) < 2 then Inl IndexError
      else Inr (c\<lparr>c_stack := butlast (butlast (c_stack c))
                   @ [last (c_stack c), last (butlast (c_stack c))]\<rparr>))"

definition do_WRAP :: "config \<Rightarrow> error + config" where
  "do_WRAP c = Inr (c\<lparr>c_buffer := c_stack c, c_stack := []\<rparr>)"

definition apply_action :: "action \<Rightarrow> config \<Rightarrow> error + bool \<times> config" where
  "apply_action a c =
     (if a_type a = ''NODE'' then checked (do_NODE a c)
      else if a_type a = ''EDGE'' then checked (do_EDGE a False c)
      else if a_type a = ''REMOTE'' then checked (do_EDGE a True c)
      else if a_type a = ''ROOT'' then checked (do_ROOT a c)
      else if a_type a = ''REDUCE'' then checked (do_REDUCE c)
      else if a_type a = ''SHIFT'' then checked (do_SHIFT c)
      else if a_type a = ''SWAP'' then checked (do_SWAP c)
      else if a_type a = ''WRAP'' then checked (do_WRAP c)
      else if a_type a = ''FINISH'' then Inr (False, c)
      else Inl InvalidAction)"

text \<open>A driver's run: the actions in turn, up to the first that raises or that returns
  False.\<close>

fun apply_actions :: "action list \<Rightarrow> config \<Rightarrow> error + bool \<times> config" where
  "apply_actions [] c = Inr (True, c)"
| "apply_actions (a # as) c =
     (case apply_action a c of
        Inl e \<Rightarrow> Inl e
      | Inr (continue, c') \<Rightarrow> if continue then apply_actions as c' else Inr (False, c'))"

definition Action :: "string \<Rightarrow> string option \<Rightarrow> action" where
  "Action type tag = \<lparr>a_type = type, a_tag = tag, a_node_id = None\<rparr>"

text \<open>An action of the oracle during training carries the ID of the gold node.\<close>

definition GoldAction :: "string \<Rightarrow> string option \<Rightarrow> gold_id \<Rightarrow> action" where
  "GoldAction type tag node_id = \<lparr>a_type = type, a_tag = tag, a_node_id = Some node_id\<rparr>"

subsection \<open>Graph Finalizer: topological_sort\<close>

text \<open>
  The loop of \<^verbatim>\<open>topological_sort\<close> works on a Python list used as a stack (the top is
  the last element), the dict \<^verbatim>\<open>levels\<close> (in insertion order) and the dict
  \<^verbatim>\<open>level_by_index\<close>. The loop may run forever, so it is a partial function: None is
  the run that does not return.
\<close>

type_synonym levels = "(nat \<times> nat list) list"
type_synonym sort_state = "nat list \<times> levels \<times> (nat \<rightharpoonup> nat)"

definition parents_of :: "(nat \<rightharpoonup> tnode) \<Rightarrow> nat \<Rightarrow> nat list" where
  "parents_of h n = map te_parent (tn_incoming (the_tnode h n))"

definition unexplored :: "(nat \<rightharpoonup> nat) \<Rightarrow> nat list \<Rightarrow> nat list" where
  "unexplored lbi ps = filter (\<lambda>p. lbi p = None) ps"

text \<open>\<^verbatim>\<open>levels[level].append(node)\<close> on the defaultdict.\<close>

fun levels_append :: "nat \<Rightarrow> nat \<Rightarrow> levels \<Rightarrow> levels" where
  "levels_append l n [] = [(l, [n])]"
| "levels_append l n ((k, ns) # rest) =
     (if k = l then (k, ns @ [n]) # rest else (k, ns) # levels_append l n rest)"

text \<open>\<^verbatim>\<open>max\<close> of a list that is not empty.\<close>

fun maximum :: "nat list \<Rightarrow> nat" where
  "maximum [] = 0"
| "maximum (x # xs) = fold max xs x"

definition parent_levels :: "(nat \<rightharpoonup> tnode) \<Rightarrow> (nat \<rightharpoonup> nat) \<Rightarrow> nat \<Rightarrow> nat list" where
  "parent_levels h lbi n = map (\<lambda>p. the (lbi p)) (parents_of h n)"

definition set_level :: "nat \<Rightarrow> nat \<Rightarrow> nat list \<Rightarrow> levels \<Rightarrow> (nat \<rightharpoonup> nat) \<Rightarrow> sort_state" where
  "set_level l n stack levels lbi = (stack, levels_append l n levels, lbi(n \<mapsto> l))"

text \<open>One turn of the \<^verbatim>\<open>while stack:\<close> loop, for a stack that is not empty.\<close>

definition level_step :: "(nat \<rightharpoonup> tnode) \<Rightarrow> sort_state \<Rightarrow> sort_state" where
  "level_step h s =
     (case s of (stack, levels, lbi) \<Rightarrow>
        if lbi (last stack) \<noteq> None then (butlast stack, levels, lbi)
        else if parents_of h (last stack) = []
        then set_level 0 (last stack) (butlast stack) levels lbi
        else if unexplored lbi (parents_of h (last stack)) \<noteq> []
        then (butlast stack
                @ concat (map (\<lambda>p. [last stack, p]) (unexplored lbi (parents_of h (last stack)))),
              levels, lbi)
        else set_level (Suc (maximum (parent_levels h lbi (last stack))))
               (last stack) (butlast stack) levels lbi)"

partial_function (option) level_loop :: "(nat \<rightharpoonup> tnode) \<Rightarrow> sort_state \<Rightarrow> (levels \<times> (nat \<rightharpoonup> nat)) option" where
  "level_loop h s = (if fst s = [] then Some (snd s) else level_loop h (level_step h s))"

definition sinks :: "config \<Rightarrow> nat list" where
  "sinks c = filter (\<lambda>n. tn_outgoing (the_tnode (c_heap c) n) = []) (c_nodes c)"

definition assign_levels :: "config \<Rightarrow> (levels \<times> (nat \<rightharpoonup> nat)) option" where
  "assign_levels c = level_loop (c_heap c) (sinks c, [], Map.empty)"

text \<open>The key \<^verbatim>\<open>x.node_index or x.index\<close>: a node_index that is None or 0 is false.\<close>

definition index_or :: "nat option \<Rightarrow> nat \<Rightarrow> nat" where
  "index_or k i = (case k of None \<Rightarrow> i | Some j \<Rightarrow> if j = 0 then i else j)"

definition order_key :: "(nat \<rightharpoonup> tnode) \<Rightarrow> nat \<Rightarrow> nat" where
  "order_key h n = index_or (node_index (the_tnode h n)) (tn_index (the_tnode h n))"

definition sorted_level :: "(nat \<rightharpoonup> tnode) \<Rightarrow> nat \<times> nat list \<Rightarrow> nat list" where
  "sorted_level h lv = sort_key (order_key h) (snd lv)"

text \<open>The new \<^verbatim>\<open>self.nodes\<close>: the levels in increasing order, each sorted by the key.\<close>

definition emission_order :: "(nat \<rightharpoonup> tnode) \<Rightarrow> levels \<Rightarrow> nat list" where
  "emission_order h levels = concat (map (sorted_level h) (sort_key fst levels))"

text \<open>\<^verbatim>\<open>self.nodes.index(x)\<close>: the first place whose node is \<open>x\<close> itself or equal to it
  by \<^verbatim>\<open>Node.__eq__\<close>; ValueError when there is none.\<close>

fun nodes_index :: "nat \<Rightarrow> (nat \<rightharpoonup> tnode) \<Rightarrow> nat list \<Rightarrow> nat \<Rightarrow> nat \<Rightarrow> error + nat" where
  "nodes_index k h [] x i = Inl ValueError"
| "nodes_index k h (y # ys) x i =
     (if y = x then Inr i
      else case node_eq k h y x of
             None \<Rightarrow> Inl RecursionError
           | Some same \<Rightarrow> if same then Inr i else nodes_index k h ys x (Suc i))"

definition end_key :: "nat \<Rightarrow> (nat \<rightharpoonup> tnode) \<Rightarrow> nat list \<Rightarrow> nat \<Rightarrow> error + nat" where
  "end_key k h ns x =
     (case node_index (the_tnode h x) of
        None \<Rightarrow> nodes_index k h ns x 0
      | Some j \<Rightarrow> if j = 0 then nodes_index k h ns x 0 else Inr j)"

text \<open>\<^verbatim>\<open>lst.sort(key=f)\<close> for a key that can raise: the keys are computed first, in
  list order, and the first exception leaves the list as it was.\<close>

fun keyed :: "('a \<Rightarrow> error + nat) \<Rightarrow> 'a list \<Rightarrow> error + (nat \<times> 'a) list" where
  "keyed f [] = Inr []"
| "keyed f (x # xs) =
     (case f x of
        Inl e \<Rightarrow> Inl e
      | Inr k \<Rightarrow> (case keyed f xs of Inl e \<Rightarrow> Inl e | Inr ks \<Rightarrow> Inr ((k, x) # ks)))"

definition sort_by :: "('a \<Rightarrow> error + nat) \<Rightarrow> 'a list \<Rightarrow> error + 'a list" where
  "sort_by f xs = (case keyed f xs of Inl e \<Rightarrow> Inl e | Inr ks \<Rightarrow> Inr (map snd (sort_key fst ks)))"

definition child_key :: "nat \<Rightarrow> (nat \<rightharpoonup> tnode) \<Rightarrow> nat list \<Rightarrow> tedge \<Rightarrow> error + nat" where
  "child_key k h ns e = end_key k h ns (te_child e)"

definition parent_key :: "nat \<Rightarrow> (nat \<rightharpoonup> tnode) \<Rightarrow> nat list \<Rightarrow> tedge \<Rightarrow> error + nat" where
  "parent_key k h ns e = end_key k h ns (te_parent e)"

definition set_tn_outgoing :: "nat \<Rightarrow> tedge list \<Rightarrow> (nat \<rightharpoonup> tnode) \<Rightarrow> (nat \<rightharpoonup> tnode)" where
  "set_tn_outgoing n es h = h(n \<mapsto> (the_tnode h n)\<lparr>tn_outgoing := es\<rparr>)"

definition set_tn_incoming :: "nat \<Rightarrow> tedge list \<Rightarrow> (nat \<rightharpoonup> tnode) \<Rightarrow> (nat \<rightharpoonup> tnode)" where
  "set_tn_incoming n es h = h(n \<mapsto> (the_tnode h n)\<lparr>tn_incoming := es\<rparr>)"

text \<open>While \<^verbatim>\<open>lst.sort\<close> runs, CPython empties the list: the key function, which
  compares nodes by \<^verbatim>\<open>Node.__eq__\<close> inside \<^verbatim>\<open>self.nodes.index\<close>, sees the list under
  sort as \<^verbatim>\<open>[]\<close>. The list is put back, sorted or (after an exception) as it was.\<close>

definition sort_incoming_of :: "nat \<Rightarrow> nat list \<Rightarrow> nat \<Rightarrow> (nat \<rightharpoonup> tnode) \<Rightarrow> error + (nat \<rightharpoonup> tnode)" where
  "sort_incoming_of k ns n h =
     (case sort_by (parent_key k (set_tn_incoming n [] h) ns) (tn_incoming (the_tnode h n)) of
        Inl e \<Rightarrow> Inl e
      | Inr es \<Rightarrow> Inr (set_tn_incoming n es h))"

definition sort_edges_of :: "nat \<Rightarrow> nat list \<Rightarrow> nat \<Rightarrow> (nat \<rightharpoonup> tnode) \<Rightarrow> error + (nat \<rightharpoonup> tnode)" where
  "sort_edges_of k ns n h =
     (case sort_by (child_key k (set_tn_outgoing n [] h) ns) (tn_outgoing (the_tnode h n)) of
        Inl e \<Rightarrow> Inl e
      | Inr es \<Rightarrow> sort_incoming_of k ns n (set_tn_outgoing n es h))"

text \<open>The closing loop \<^verbatim>\<open>for node in self.nodes\<close> that sorts the edge lists.\<close>

fun sort_all_edges :: "nat \<Rightarrow> nat list \<Rightarrow> nat list \<Rightarrow> (nat \<rightharpoonup> tnode) \<Rightarrow> error + (nat \<rightharpoonup> tnode)" where
  "sort_all_edges k ns [] h = Inr h"
| "sort_all_edges k ns (n # rest) h =
     (case sort_edges_of k ns n h of
        Inl e \<Rightarrow> Inl e
      | Inr h' \<Rightarrow> sort_all_edges k ns rest h')"

definition reorder :: "config \<Rightarrow> nat list \<Rightarrow> error + config" where
  "reorder c ns =
     (case sort_all_edges (depth_bound c) ns ns (c_heap c) of
        Inl e \<Rightarrow> Inl e
      | Inr h \<Rightarrow> Inr (c\<lparr>c_heap := h, c_nodes := ns\<rparr>))"

definition topological_sort :: "config \<Rightarrow> (error + config) option" where
  "topological_sort c =
     (case assign_levels c of
        None \<Rightarrow> None
      | Some r \<Rightarrow> Some (reorder c (emission_order (c_heap c) (fst r))))"

subsection \<open>Graph Finalizer: the passage property\<close>


text \<open>
  Modelled from the spec: the builders of the persisted graph, which are not among the
  source files. The passage under construction is the record of the builder calls made
  on it (section 6 of the specification and steps 1, 5, 6, 7 and 8 of its section 4.4):
  the terminals built from the paragraphs, a terminal attached under a unit, a
  punctuation unit, a generic unit under a parent (None is the root of layer 1), a
  remote edge, a linkage, and a remark on a node. A unit is named by the number of
  units built before it. The builders are taken to return.
\<close>

datatype built =
    FromText "string list" string
  | Layer1
  | RootRemark gold_id
  | AddTerminal cnode string cnode
  | AddPunct "cnode option" cnode
  | AddFnode "cnode option" "string option"
  | AddRemote cnode "string option" "cnode option"
  | AddLinkage "cnode option" "cnode option list"
  | Remark cnode gold_id

record fin =
  f_heap :: "nat \<rightharpoonup> tnode"
  f_log :: "built list"
  f_units :: nat
  f_remotes :: "(nat \<times> tedge) list"
  f_linkages :: "nat list"




definition set_tn_node :: "nat \<Rightarrow> cnode option \<Rightarrow> fin \<Rightarrow> fin" where
  "set_tn_node n v s = s\<lparr>f_heap := (f_heap s)(n \<mapsto> (the_tnode (f_heap s) n)\<lparr>tn_node := v\<rparr>)\<rparr>"

definition logged :: "built \<Rightarrow> fin \<Rightarrow> fin" where
  "logged b s = s\<lparr>f_log := f_log s @ [b]\<rparr>"

definition new_unit :: "fin \<Rightarrow> fin" where
  "new_unit s = s\<lparr>f_units := Suc (f_units s)\<rparr>"

text \<open>The last statement of \<^verbatim>\<open>add_layer1_node\<close>: the remark with the gold ID.\<close>

definition remark :: "nat \<Rightarrow> fin \<Rightarrow> fin" where
  "remark n s =
     (case tn_node (the_tnode (f_heap s) n) of
        None \<Rightarrow> s
      | Some v \<Rightarrow>
          (case tn_node_id (the_tnode (f_heap s) n) of
             None \<Rightarrow> s
           | Some g \<Rightarrow> logged (Remark v g) s))"




definition make_fnode :: "nat \<Rightarrow> nat \<Rightarrow> string option \<Rightarrow> fin \<Rightarrow> fin" where
  "make_fnode n parent tag s =
     set_tn_node n (Some (UnitNode (f_units s)))
       (new_unit (logged (AddFnode (tn_node (the_tnode (f_heap s) parent)) tag) s))"




















text \<open>What a driver sees of a call: the exception, or the returned flag with the stack,
  the buffer, the node list and all edges (read off the outgoing lists).\<close>

definition edges_of :: "config \<Rightarrow> tedge list" where
  "edges_of c = concat (map (\<lambda>n. tn_outgoing (the_tnode (c_heap c) n)) (c_nodes c))"

definition seen :: "error + bool \<times> config \<Rightarrow> error + bool \<times> nat list \<times> nat list \<times> nat list \<times> tedge list" where
  "seen r =
     (case r of
        Inl e \<Rightarrow> Inl e
      | Inr (b, c) \<Rightarrow> Inr (b, c_stack c, c_buffer c, c_nodes c, edges_of c))"

text \<open>The configurations for the one-token text \<^verbatim>\<open>a\<close> (token 0, root 1) and for the
  two-token text \<^verbatim>\<open>a a\<close> (tokens 0 and 1, root 2).\<close>

definition one_token :: config where
  "one_token = Configuration_init [[''a'']] ''p''"

definition two_equal_tokens :: config where
  "two_equal_tokens = Configuration_init [[''a'', ''a'']] ''p''"

text \<open>The configuration for a gold passage with the one terminal \<^verbatim>\<open>a\<close> of ID
  \<^verbatim>\<open>0.1\<close> and the root ID \<^verbatim>\<open>1.1\<close> (token 0, root 1).\<close>

definition gold_token :: config where
  "gold_token =
     Configuration_init_passage [\<lparr>t_text = ''a'', t_ID = (''0'', 1), t_paragraph = 1\<rparr>]
       (''1'', 1) ''p''"



text \<open>The configuration reached from \<open>gold_token\<close> by NODE(A) with the gold ID
  \<^verbatim>\<open>1.2\<close> and then ROOT(C): the root 1 has an edge to node 2, node 2 an edge to token
  0; the stack is empty, token 0 is still in the buffer, and FINISH has not been
  applied.\<close>

definition gold_tree :: config where
  "gold_tree =
     (case apply_actions [GoldAction ''NODE'' (Some ''A'') (''1'', 2), Action ''ROOT'' (Some ''C'')]
             gold_token of
        Inl e \<Rightarrow> gold_token
      | Inr r \<Rightarrow> snd r)"

section \<open>Evaluation of the model on concrete passages\<close>

lemma replicate_numeral: "replicate (numeral k) x = x # replicate (pred_numeral k) x"
  by (simp add: numeral_eq_Suc)

lemmas store_eval =
  Passage_init_def Layer_init_def Passage_add_layer_def add_layer_fn_def ModifyPassage_def
  alloc_layer_lists_def AttributeDict_init_def Node_init_def alloc_node_def Passage_add_node_def
  add_node_fn_def enter_layer_def Node_layer_def Layer_add_node_def list_sort_def list_append_def
  list_remove_def set_list_def get_list_def the_node_def the_edge_def the_layer_def Node_add_def
  add_fn_def Edge_init_def link_edge_def notify_add_def append_outgoing_def sort_outgoing_def
  append_incoming_def sort_incoming_def set_outgoing_def set_incoming_def Layer_add_edge_def
  discard_head_def sort_all_def sort_heads_def id_orderkey_def edge_id_orderkey_def
  UNIQUE_ID_MAX_DIGITS_def Node_remove_def remove_fn_def resolve_edge_def child_is_def
  unlink_edge_def unlink_child_def notify_remove_def Layer_remove_edge_def readmit_head_def
  other_layer_def Node_parents_def Node_children_def Node_destroy_def destroy_fn_def
  drop_incoming_def leave_layer_def leave_passage_def Layer_remove_node_def remove_head_def
  Passage_remove_node_def destroy_outgoing.simps destroy_incoming.simps replicate_numeral
  Passage_set_frozen_def list_copy_def Layer_all_def Layer_heads_def

lemmas parse_eval =
  Configuration_init_def add_node_def text_nodes_def Node_new_def apply_action_def checked_def
  check_overlap_def push_def new_edge_def do_NODE_def do_EDGE_def do_ROOT_def do_REDUCE_def
  do_SHIFT_def do_SWAP_def do_WRAP_def Edge_add_def edge_eq_def depth_bound_def add_outgoing_def
  add_incoming_def the_tnode_def Action_def has_text_def node_index_def printable_def
  print_edge_def GoldAction_def Configuration_init_passage_def gold_nodes_def


section \<open>Properties of the Graph Store\<close>

subsection \<open>The methods do not write the frozen flag\<close>

lemma frozen_set_list [simp]: "frozen (set_list r xs p) = frozen p"
  by (simp add: set_list_def)
lemma frozen_list_sort [simp]: "frozen (list_sort r p) = frozen p"
  by (simp add: list_sort_def)
lemma frozen_list_append [simp]: "frozen (list_append r x p) = frozen p"
  by (simp add: list_append_def)
lemma frozen_set_outgoing [simp]: "frozen (set_outgoing a es p) = frozen p"
  by (simp add: set_outgoing_def)
lemma frozen_set_incoming [simp]: "frozen (set_incoming a es p) = frozen p"
  by (simp add: set_incoming_def)
lemma frozen_set_attrib [simp]: "frozen (set_attrib el a p) = frozen p"
  by (simp add: set_attrib_def split: element.splits)

lemma frozen_bind:
  assumes "\<And>x q. frozen (snd (f x q)) = frozen q"
  shows "frozen (snd (bind m f)) = frozen (snd m)"
proof (cases m)
  case (Pair r q)
  then show ?thesis using assms by (cases r) simp_all
qed

lemma frozen_list_remove [simp]: "frozen (snd (list_remove r x p)) = frozen p"
  by (simp add: list_remove_def)

lemma frozen_Layer_init [simp]: "frozen (snd (Layer_init lid a p)) = frozen p"
  by (simp add: Layer_init_def Passage_add_layer_def ModifyPassage_def add_layer_fn_def
      alloc_layer_lists_def)

lemma frozen_Layer_add_node [simp]: "frozen (Layer_add_node lid nd p) = frozen p"
  by (simp add: Layer_add_node_def sort_heads_def sort_all_def)

lemma frozen_Node_init [simp]: "frozen (snd (Node_init ID t a p)) = frozen p"
  by (simp add: Node_init_def Passage_add_node_def ModifyPassage_def add_node_fn_def
      alloc_node_def enter_layer_def split: sum.splits)

lemma frozen_Layer_add_edge [simp]: "frozen (Layer_add_edge lid e p) = frozen p"
  by (simp add: Layer_add_edge_def sort_heads_def sort_all_def discard_head_def)

lemma frozen_Layer_remove_edge [simp]: "frozen (Layer_remove_edge lid e p) = frozen p"
  by (simp add: Layer_remove_edge_def sort_heads_def sort_all_def readmit_head_def)

lemma frozen_Node_add [simp]: "frozen (snd (Node_add nd t c a p)) = frozen p"
  by (simp add: Node_add_def ModifyPassage_def add_fn_def Edge_init_def link_edge_def
      notify_add_def append_outgoing_def sort_outgoing_def append_incoming_def sort_incoming_def
      split: sum.splits)

lemma frozen_Node_remove [simp]: "frozen (snd (Node_remove nd x p)) = frozen p"
  by (simp add: Node_remove_def ModifyPassage_def remove_fn_def unlink_edge_def unlink_child_def
      notify_remove_def split: sum.splits)

lemma frozen_destroy_outgoing [simp]: "frozen (snd (destroy_outgoing i nd p)) = frozen p"
proof (induction i nd p rule: destroy_outgoing.induct)
  case (1 i self p)
  show ?case
  proof (cases "i < length (n_outgoing (the_node p self))")
    case False
    then show ?thesis by (simp add: destroy_outgoing.simps)
  next
    case True
    obtain r q where rq: "Node_remove self (AnEdge (n_outgoing (the_node p self) ! i)) p = (r, q)"
      by (cases "Node_remove self (AnEdge (n_outgoing (the_node p self) ! i)) p")
    have fq: "frozen q = frozen p"
      using frozen_Node_remove [of self "AnEdge (n_outgoing (the_node p self) ! i)" p] rq by simp
    show ?thesis
    proof (cases r)
      case (Inl e)
      with True rq fq show ?thesis by (simp add: destroy_outgoing.simps [of i self p])
    next
      case (Inr u)
      with True rq fq "1.IH" show ?thesis
        by (auto simp: destroy_outgoing.simps [of i self p])
    qed
  qed
qed

lemma frozen_destroy_incoming [simp]: "frozen (snd (destroy_incoming i nd p)) = frozen p"
proof (induction i nd p rule: destroy_incoming.induct)
  case (1 i self p)
  show ?case
  proof (cases "i < length (n_incoming (the_node p self))")
    case False
    then show ?thesis by (simp add: destroy_incoming.simps)
  next
    case True
    let ?e = "n_incoming (the_node p self) ! i"
    obtain r q where rq: "Node_remove (e_parent (the_edge p ?e)) (AnEdge ?e) p = (r, q)"
      by (cases "Node_remove (e_parent (the_edge p ?e)) (AnEdge ?e) p")
    have fq: "frozen q = frozen p"
      using frozen_Node_remove [of "e_parent (the_edge p ?e)" "AnEdge ?e" p] rq by simp
    show ?thesis
    proof (cases r)
      case (Inl e)
      with True rq fq show ?thesis by (simp add: destroy_incoming.simps [of i self p])
    next
      case (Inr u)
      with True rq fq "1.IH" show ?thesis
        by (auto simp: destroy_incoming.simps [of i self p])
    qed
  qed
qed

lemma frozen_Passage_remove_node [simp]: "frozen (snd (Passage_remove_node nd p)) = frozen p"
  by (simp add: Passage_remove_node_def)

lemma frozen_Layer_remove_node [simp]: "frozen (snd (Layer_remove_node lid nd p)) = frozen p"
  by (simp add: Layer_remove_node_def frozen_bind remove_head_def)

lemma frozen_leave_layer [simp]: "frozen (snd (leave_layer nd u p)) = frozen p"
  by (simp add: leave_layer_def frozen_bind leave_passage_def split: sum.splits)

lemma frozen_Node_destroy [simp]: "frozen (snd (Node_destroy nd p)) = frozen p"
  by (simp add: Node_destroy_def ModifyPassage_def destroy_fn_def drop_incoming_def frozen_bind)

lemma frozen_setitem [simp]: "frozen (snd (AttributeDict_setitem el k v p)) = frozen p"
  by (simp add: AttributeDict_setitem_def ModifyPassage_def setitem_fn_def)

lemma frozen_delitem [simp]: "frozen (snd (AttributeDict_delitem el k p)) = frozen p"
  by (simp add: AttributeDict_delitem_def ModifyPassage_def delitem_fn_def)

lemma frozen_apply_op: "frozen (apply_op x p) = frozen p"
  by (cases x) simp_all

lemma frozen_run: "frozen (run ops p) = frozen p"
  by (induction ops arbitrary: p) (simp_all add: frozen_apply_op)

subsection \<open>The effect of add and remove on the adjacency lists\<close>

lemma the_edge_set_list [simp]: "the_edge (set_list r xs p) = the_edge p"
  by (simp add: the_edge_def set_list_def fun_eq_iff)
lemma the_edge_list_sort [simp]: "the_edge (list_sort r p) = the_edge p"
  by (simp add: list_sort_def)
lemma the_edge_list_append [simp]: "the_edge (list_append r x p) = the_edge p"
  by (simp add: list_append_def)
lemma the_edge_Layer_remove_edge [simp]: "the_edge (Layer_remove_edge lid e p) = the_edge p"
  by (simp add: Layer_remove_edge_def readmit_head_def sort_heads_def sort_all_def)
lemma the_edge_Layer_add_edge [simp]: "the_edge (Layer_add_edge lid e p) = the_edge p"
  by (simp add: Layer_add_edge_def discard_head_def sort_heads_def sort_all_def)

lemma p_layers_set_list [simp]: "p_layers (set_list r xs p) = p_layers p"
  by (simp add: set_list_def)
lemma p_layers_set_outgoing [simp]: "p_layers (set_outgoing a es p) = p_layers p"
  by (simp add: set_outgoing_def)
lemma p_layers_set_incoming [simp]: "p_layers (set_incoming a es p) = p_layers p"
  by (simp add: set_incoming_def)

lemma Node_layer_set_outgoing [simp]: "Node_layer (set_outgoing a es p) nd = Node_layer p nd"
  by (simp add: Node_layer_def the_node_set_outgoing)
lemma Node_layer_set_incoming [simp]: "Node_layer (set_incoming a es p) nd = Node_layer p nd"
  by (simp add: Node_layer_def the_node_set_incoming)

text \<open>The passage after the edge object has been allocated.\<close>

definition with_edge :: "string \<Rightarrow> ref \<Rightarrow> ref \<Rightarrow> attrs option \<Rightarrow> passage \<Rightarrow> passage" where
  "with_edge tag nd c a p = snd (Edge_init tag nd c a p)"

lemma Edge_init_ok:
  "\<not> frozen p \<Longrightarrow> Edge_init tag nd c a p = (Inr (next_ref p), with_edge tag nd c a p)"
  by (simp add: with_edge_def Edge_init_def)

lemma the_node_with_edge [simp]: "\<not> frozen p \<Longrightarrow> the_node (with_edge tag nd c a p) = the_node p"
  by (simp add: with_edge_def Edge_init_def the_node_def fun_eq_iff)

lemma the_edge_with_edge:
  "\<not> frozen p \<Longrightarrow> the_edge (with_edge tag nd c a p) e =
     (if e = next_ref p
      then \<lparr>e_tag = tag, e_parent = nd, e_child = c, e_attrib = AttributeDict_init a\<rparr>
      else the_edge p e)"
  by (simp add: with_edge_def Edge_init_def the_edge_def)

lemma Node_layer_with_edge [simp]:
  "\<not> frozen p \<Longrightarrow> Node_layer (with_edge tag nd c a p) x = Node_layer p x"
  by (simp add: Node_layer_def with_edge_def Edge_init_def the_node_def)

lemma frozen_with_edge [simp]: "\<not> frozen p \<Longrightarrow> frozen (with_edge tag nd c a p) = frozen p"
  by (simp add: with_edge_def Edge_init_def)


lemma the_node_append_outgoing:
  "the_node (append_outgoing a e p) x =
     (if x = a then (the_node p a)\<lparr>n_outgoing := n_outgoing (the_node p a) @ [e]\<rparr>
      else the_node p x)"
  by (simp add: append_outgoing_def the_node_set_outgoing)

lemma the_node_sort_outgoing:
  "the_node (sort_outgoing a p) x =
     (if x = a
      then (the_node p a)\<lparr>n_outgoing := sort_key (edge_id_orderkey p) (n_outgoing (the_node p a))\<rparr>
      else the_node p x)"
  by (simp add: sort_outgoing_def the_node_set_outgoing)

lemma the_node_append_incoming:
  "the_node (append_incoming a e p) x =
     (if x = a then (the_node p a)\<lparr>n_incoming := n_incoming (the_node p a) @ [e]\<rparr>
      else the_node p x)"
  by (simp add: append_incoming_def the_node_set_incoming)

lemma the_node_sort_incoming:
  "the_node (sort_incoming a p) x =
     (if x = a
      then (the_node p a)\<lparr>n_incoming := sort_key (edge_id_orderkey p) (n_incoming (the_node p a))\<rparr>
      else the_node p x)"
  by (simp add: sort_incoming_def the_node_set_incoming)

lemmas the_node_link =
  the_node_append_outgoing the_node_sort_outgoing the_node_append_incoming the_node_sort_incoming

lemma the_edge_link [simp]:
  "the_edge (append_outgoing a e p) = the_edge p"
  "the_edge (sort_outgoing a p) = the_edge p"
  "the_edge (append_incoming a e p) = the_edge p"
  "the_edge (sort_incoming a p) = the_edge p"
  by (simp_all add: append_outgoing_def sort_outgoing_def append_incoming_def sort_incoming_def)

lemma Node_layer_link [simp]:
  "Node_layer (append_outgoing a e p) x = Node_layer p x"
  "Node_layer (sort_outgoing a p) x = Node_layer p x"
  "Node_layer (append_incoming a e p) x = Node_layer p x"
  "Node_layer (sort_incoming a p) x = Node_layer p x"
  by (simp_all add: append_outgoing_def sort_outgoing_def append_incoming_def sort_incoming_def)

lemma frozen_link [simp]:
  "frozen (append_outgoing a e p) = frozen p"
  "frozen (sort_outgoing a p) = frozen p"
  "frozen (append_incoming a e p) = frozen p"
  "frozen (sort_incoming a p) = frozen p"
  by (simp_all add: append_outgoing_def sort_outgoing_def append_incoming_def sort_incoming_def)

lemma Node_layer_frame:
  "the_node q = the_node p \<Longrightarrow> p_layers q = p_layers p \<Longrightarrow> Node_layer q x = Node_layer p x"
  by (simp add: Node_layer_def)

lemma p_layers_list_sort [simp]: "p_layers (list_sort r p) = p_layers p"
  by (simp add: list_sort_def)
lemma p_layers_list_append [simp]: "p_layers (list_append r x p) = p_layers p"
  by (simp add: list_append_def)
lemma p_layers_Layer_add_edge [simp]: "p_layers (Layer_add_edge lid e p) = p_layers p"
  by (simp add: Layer_add_edge_def discard_head_def sort_heads_def sort_all_def)
lemma p_layers_Layer_remove_edge [simp]: "p_layers (Layer_remove_edge lid e p) = p_layers p"
  by (simp add: Layer_remove_edge_def readmit_head_def sort_heads_def sort_all_def)

lemma Node_layer_Layer_add_edge [simp]:
  "Node_layer (Layer_add_edge lid e p) x = Node_layer p x"
  by (rule Node_layer_frame) simp_all

lemma Node_layer_Layer_remove_edge [simp]:
  "Node_layer (Layer_remove_edge lid e p) x = Node_layer p x"
  by (rule Node_layer_frame) simp_all

text \<open>What \<^verbatim>\<open>add\<close> does to the adjacency lists and the edge heap.\<close>

lemma notify_add_effect:
  assumes "Node_layer p nd = Inr l1" and "Node_layer p c = Inr l2"
  shows "fst (notify_add nd c e p) = Inr () \<and>
         the_edge (snd (notify_add nd c e p)) = the_edge p \<and>
         the_node (snd (notify_add nd c e p)) = the_node p \<and>
         Node_layer (snd (notify_add nd c e p)) x = Node_layer p x \<and>
         frozen (snd (notify_add nd c e p)) = frozen p"
  using assms by (simp add: notify_add_def)

lemma link_edge_effect:
  assumes ln: "Node_layer p nd = Inr l1" and lc: "Node_layer p c = Inr l2"
  shows "fst (link_edge nd c e p) = Inr () \<and>
         the_edge (snd (link_edge nd c e p)) = the_edge p \<and>
         mset (n_outgoing (the_node (snd (link_edge nd c e p)) x)) =
           (if x = nd then add_mset e (mset (n_outgoing (the_node p x)))
            else mset (n_outgoing (the_node p x))) \<and>
         mset (n_incoming (the_node (snd (link_edge nd c e p)) x)) =
           (if x = c then add_mset e (mset (n_incoming (the_node p x)))
            else mset (n_incoming (the_node p x))) \<and>
         Node_layer (snd (link_edge nd c e p)) x = Node_layer p x \<and>
         frozen (snd (link_edge nd c e p)) = frozen p"
proof -
  let ?q = "sort_incoming c (append_incoming c e (sort_outgoing nd (append_outgoing nd e p)))"
  have "Node_layer ?q nd = Inr l1" "Node_layer ?q c = Inr l2"
    using ln lc by simp_all
  from notify_add_effect [OF this, of e x]
  show ?thesis
    by (simp add: link_edge_def the_node_link)
qed

lemma Node_add_effect:
  assumes nf: "\<not> frozen p"
    and ln: "Node_layer p nd = Inr l1" and lc: "Node_layer p c = Inr l2"
  shows "fst (Node_add nd tag c a p) = Inr () \<and>
         the_edge (snd (Node_add nd tag c a p)) = the_edge (with_edge tag nd c a p) \<and>
         mset (n_outgoing (the_node (snd (Node_add nd tag c a p)) x)) =
           (if x = nd then add_mset (next_ref p) (mset (n_outgoing (the_node p x)))
            else mset (n_outgoing (the_node p x))) \<and>
         mset (n_incoming (the_node (snd (Node_add nd tag c a p)) x)) =
           (if x = c then add_mset (next_ref p) (mset (n_incoming (the_node p x)))
            else mset (n_incoming (the_node p x))) \<and>
         Node_layer (snd (Node_add nd tag c a p)) x = Node_layer p x \<and>
         frozen (snd (Node_add nd tag c a p)) = frozen p"
proof -
  let ?p1 = "with_edge tag nd c a p"
  have "Node_layer ?p1 nd = Inr l1" "Node_layer ?p1 c = Inr l2"
    using nf ln lc by simp_all
  from link_edge_effect [OF this, of "next_ref p" x] nf
  show ?thesis
    by (simp add: Node_add_def ModifyPassage_def add_fn_def Edge_init_ok)
qed

lemma notify_remove_effect:
  assumes "Node_layer p nd = Inr l1" and "Node_layer p (e_child (the_edge p e)) = Inr l2"
  shows "fst (notify_remove nd e p) = Inr () \<and>
         the_edge (snd (notify_remove nd e p)) = the_edge p \<and>
         the_node (snd (notify_remove nd e p)) = the_node p"
  using assms by (simp add: notify_remove_def)

lemma unlink_edge_effect:
  assumes ln: "Node_layer p nd = Inr l1" and lc: "Node_layer p (e_child (the_edge p e)) = Inr l2"
    and inc: "e \<in> set (n_incoming (the_node p (e_child (the_edge p e))))"
  shows "fst (unlink_edge nd e p) = Inr () \<and>
         the_edge (snd (unlink_edge nd e p)) = the_edge p \<and>
         mset (n_outgoing (the_node (snd (unlink_edge nd e p)) x)) =
           (if x = nd then mset (n_outgoing (the_node p x)) - {#e#}
            else mset (n_outgoing (the_node p x))) \<and>
         mset (n_incoming (the_node (snd (unlink_edge nd e p)) x)) =
           (if x = e_child (the_edge p e) then mset (n_incoming (the_node p x)) - {#e#}
            else mset (n_incoming (the_node p x)))"
proof -
  let ?c = "e_child (the_edge p e)"
  let ?p1 = "set_outgoing nd (remove1 e (n_outgoing (the_node p nd))) p"
  let ?p2 = "set_incoming ?c (remove1 e (n_incoming (the_node ?p1 ?c))) ?p1"
  have i1: "e \<in> set (n_incoming (the_node ?p1 ?c))"
    using inc by (auto simp: the_node_set_outgoing)
  have "Node_layer ?p2 nd = Inr l1" "Node_layer ?p2 (e_child (the_edge ?p2 e)) = Inr l2"
    using ln lc by simp_all
  from notify_remove_effect [OF this] i1
  show ?thesis
    by (simp add: unlink_edge_def unlink_child_def the_node_set_outgoing the_node_set_incoming)
qed

lemma resolve_created:
  assumes m: "mset (n_outgoing (the_node p nd)) = add_mset e (mset old)"
    and o: "\<forall>e' \<in> set old. e_child (the_edge p e') \<noteq> c"
    and c: "e_child (the_edge p e) = c"
  shows "resolve_edge p nd (AnEdge e) = Inr e" and "resolve_edge p nd (ANode c) = Inr e"
proof -
  have "e \<in># mset (n_outgoing (the_node p nd))"
    unfolding m by simp
  then show "resolve_edge p nd (AnEdge e) = Inr e"
    by (simp add: resolve_edge_def)
  have em: "filter_mset (child_is p c) (mset old) = {#}"
    using o by (auto simp: child_is_def)
  have "mset (filter (child_is p c) (n_outgoing (the_node p nd)))
          = filter_mset (child_is p c) (mset (n_outgoing (the_node p nd)))"
    by (rule mset_filter)
  also have "\<dots> = filter_mset (child_is p c) (add_mset e (mset old))"
    by (simp only: m)
  also have "\<dots> = add_mset e (filter_mset (child_is p c) (mset old))"
    using c by (simp add: child_is_def)
  also have "\<dots> = {#e#}"
    by (simp only: em)
  finally have "mset (filter (child_is p c) (n_outgoing (the_node p nd))) = {#e#}" .
  then have "filter (child_is p c) (n_outgoing (the_node p nd)) = [e]"
    by (simp only: mset_single_iff)
  then show "resolve_edge p nd (ANode c) = Inr e"
    by (simp add: resolve_edge_def)
qed

text \<open>
  Claim C2. On a passage whose frozen flag is set, each mutating call - constructing a
  layer or a node, adding an edge, removing an edge (given the edge or the child),
  destroying a node, writing or deleting an entry of the attribute map of the passage,
  a layer, a node or an edge - raises FrozenPassageError and returns the passage state
  it was given; reading an attribute map does not look at the flag: a key that is
  present is returned by \<^verbatim>\<open>__getitem__\<close> and by \<^verbatim>\<open>get\<close>.
\<close>

theorem frozen_passage_rejects_mutation:
  assumes "frozen p"
  shows "Layer_init lid attrib p = (Inl FrozenPassageError, p) \<and>
         Node_init ID tag attrib p = (Inl FrozenPassageError, p) \<and>
         Node_add nd edge_tag child attrib p = (Inl FrozenPassageError, p) \<and>
         Node_remove nd x p = (Inl FrozenPassageError, p) \<and>
         Node_destroy nd p = (Inl FrozenPassageError, p) \<and>
         AttributeDict_setitem el key v p = (Inl FrozenPassageError, p) \<and>
         AttributeDict_delitem el key p = (Inl FrozenPassageError, p) \<and>
         (attrib_of p el key = Some w \<longrightarrow>
            AttributeDict_getitem el key p = Inr w \<and>
            AttributeDict_get el key dflt p = Some w)"
  using assms
  by (simp add: Layer_init_def Node_init_def Node_add_def Node_remove_def Node_destroy_def
      AttributeDict_setitem_def AttributeDict_delitem_def AttributeDict_getitem_def
      AttributeDict_get_def ModifyPassage_def)

definition frozen_example :: passage where
  "frozen_example =
     Passage_set_frozen True (Passage_init ''p'' (Some [''k'' \<mapsto> ''v'']))"

theorem frozen_passage_rejects_mutation_witness:
  "frozen frozen_example \<and>
   attrib_of frozen_example PassageEl ''k'' = Some ''v'' \<and>
   Layer_init ''1'' None frozen_example = (Inl FrozenPassageError, frozen_example) \<and>
   Node_init (''1'', ''1'') ''t'' None frozen_example = (Inl FrozenPassageError, frozen_example) \<and>
   Node_add 0 ''t'' 1 None frozen_example = (Inl FrozenPassageError, frozen_example) \<and>
   Node_remove 0 (ANode 1) frozen_example = (Inl FrozenPassageError, frozen_example) \<and>
   Node_destroy 0 frozen_example = (Inl FrozenPassageError, frozen_example) \<and>
   AttributeDict_setitem PassageEl ''k'' ''x'' frozen_example
     = (Inl FrozenPassageError, frozen_example) \<and>
   AttributeDict_delitem PassageEl ''k'' frozen_example
     = (Inl FrozenPassageError, frozen_example) \<and>
   AttributeDict_getitem PassageEl ''k'' frozen_example = Inr ''v'' \<and>
   AttributeDict_get PassageEl ''k'' None frozen_example = Some ''v''"
proof -
  have f: "frozen frozen_example"
    by (simp add: frozen_example_def Passage_set_frozen_def)
  have a: "attrib_of frozen_example PassageEl ''k'' = Some ''v''"
    by (simp add: frozen_example_def Passage_set_frozen_def Passage_init_def attrib_of_def
        AttributeDict_init_def)
  show ?thesis
    using f a
      frozen_passage_rejects_mutation [OF f, of "''1''" None "(''1'', ''1'')" "''t''" 0 "''t''" 1
        "ANode 1" PassageEl "''k''" "''x''" "''v''" None]
    by simp
qed

text \<open>
  Claim C3, at a node with two outgoing edges. Node 2 has the children 3 and 4.
  \<^verbatim>\<open>destroy\<close> returns without an exception, node 2 has left the layer and the passage's
  node map, yet the second edge was never removed: it is still in the outgoing list of
  node 2 and in the incoming list of node 4, so node 4 still has the destroyed node as
  parent and is not a head.
\<close>

theorem destroy_skips_second_edge:
  "fst (Node_destroy 2 two_children) = Inr () \<and>
   p_nodes (snd (Node_destroy 2 two_children)) (''1'', ''1'') = None \<and>
   get_list (snd (Node_destroy 2 two_children)) 0 = [3, 4] \<and>
   get_list (snd (Node_destroy 2 two_children)) 1 = [3] \<and>
   n_outgoing (the_node (snd (Node_destroy 2 two_children)) 2) = [6] \<and>
   Node_children (snd (Node_destroy 2 two_children)) 2 = [4] \<and>
   n_incoming (the_node (snd (Node_destroy 2 two_children)) 4) = [6] \<and>
   Node_parents (snd (Node_destroy 2 two_children)) 4 = [2]"
  by (simp add: two_children_def three_nodes_def store_eval)

text \<open>
  Claim C1, at a state reached through \<^verbatim>\<open>destroy\<close>. Node 4 has the parents 2 and 3,
  all in layer 1. \<^verbatim>\<open>destroy\<close> of node 4 removes the edge from node 2, skips the edge
  from node 3, takes node 4 out of \<^verbatim>\<open>all\<close> and raises ValueError at
  \<^verbatim>\<open>_heads.remove\<close>. Removing the remaining edge from node 3 then appends node 4 to
  the heads: the heads hold a node that is not a member of the layer.
\<close>

theorem heads_hold_a_nonmember:
  "fst (Node_destroy 4 two_parents) = Inl ValueError \<and>
   fst (Node_remove 3 (ANode 4) (snd (Node_destroy 4 two_parents))) = Inr () \<and>
   get_list (run [Destroy 4, Remove 3 (ANode 4)] two_parents)
     (l_all (the_layer (run [Destroy 4, Remove 3 (ANode 4)] two_parents) ''1'')) = [2, 3] \<and>
   get_list (run [Destroy 4, Remove 3 (ANode 4)] two_parents)
     (l_heads (the_layer (run [Destroy 4, Remove 3 (ANode 4)] two_parents) ''1'')) = [2, 3, 4] \<and>
   set (get_list (run [Destroy 4, Remove 3 (ANode 4)] two_parents)
     (l_heads (the_layer (run [Destroy 4, Remove 3 (ANode 4)] two_parents) ''1'')))
     \<noteq> heads_spec (run [Destroy 4, Remove 3 (ANode 4)] two_parents) ''1''"
proof -
  let ?q = "run [Destroy 4, Remove 3 (ANode 4)] two_parents"
  have d: "fst (Node_destroy 4 two_parents) = Inl ValueError"
    by (simp add: two_parents_def three_nodes_def store_eval)
  have r: "fst (Node_remove 3 (ANode 4) (snd (Node_destroy 4 two_parents))) = Inr ()"
    by (simp add: two_parents_def three_nodes_def store_eval)
  have a: "get_list ?q (l_all (the_layer ?q ''1'')) = [2, 3]"
    by (simp add: two_parents_def three_nodes_def store_eval)
  have h: "get_list ?q (l_heads (the_layer ?q ''1'')) = [2, 3, 4]"
    by (simp add: two_parents_def three_nodes_def store_eval)
  have "4 \<notin> heads_spec ?q ''1''"
    unfolding heads_spec_def a by simp
  moreover have "4 \<in> set (get_list ?q (l_heads (the_layer ?q ''1'')))"
    unfolding h by simp
  ultimately have "set (get_list ?q (l_heads (the_layer ?q ''1''))) \<noteq> heads_spec ?q ''1''"
    by blast
  with d r a h show ?thesis by blast
qed

text \<open>
  Claim C5 as stated fails: the flag is a plain attribute, and the assignment that
  freezes a passage can be followed by the assignment that thaws it, after which a
  mutating call succeeds again.
\<close>

theorem frozen_flag_can_be_cleared:
  "frozen (run_calls [SetFrozen True] (Passage_init ''p'' None)) \<and>
   \<not> frozen (run_calls [SetFrozen True, SetFrozen False] (Passage_init ''p'' None)) \<and>
   fst (Layer_init ''1'' None (run_calls [SetFrozen True] (Passage_init ''p'' None)))
     = Inl FrozenPassageError \<and>
   fst (Layer_init ''1'' None
          (run_calls [SetFrozen True, SetFrozen False] (Passage_init ''p'' None))) = Inr ()"
  by (simp add: store_eval)

text \<open>
  Claim C5, amended. No sequence of method calls (constructing layers and nodes, add,
  remove, destroy, writing and deleting attributes), whether the calls return or raise,
  changes the frozen flag; only an assignment to the attribute does. Assigning True
  freezes the passage, and on a passage that is already frozen it changes nothing.
\<close>

theorem methods_keep_frozen_flag:
  "frozen (run ops p) = frozen p \<and>
   frozen (Passage_set_frozen True p) \<and>
   (frozen p \<longrightarrow> Passage_set_frozen True p = p)"
  by (simp add: frozen_run Passage_set_frozen_def)

theorem methods_keep_frozen_flag_witness:
  "frozen (run [NewLayer ''1'' None, NewNode (''1'', ''1'') ''t'' None, Destroy 2,
                SetAttr PassageEl ''k'' ''v''] frozen_example) = frozen frozen_example \<and>
   frozen frozen_example \<and>
   Passage_set_frozen True frozen_example = frozen_example"
proof -
  have f: "frozen frozen_example"
    by (simp add: frozen_example_def Passage_set_frozen_def)
  show ?thesis
    using f methods_keep_frozen_flag [of "[NewLayer ''1'' None, NewNode (''1'', ''1'') ''t'' None,
      Destroy 2, SetAttr PassageEl ''k'' ''v'']" frozen_example]
    by simp
qed

text \<open>
  Claim C10. In a passage whose layer \<open>lid\<close> holds its two list objects at allocated
  references, the accessor \<^verbatim>\<open>all\<close> returns a new list object \<open>r\<close>, different from
  the layer's own lists, with the elements of \<^verbatim>\<open>_all\<close>. Whatever the caller then
  writes into the returned object (\<open>xs\<close> is its new content), the layer record and the
  contents of \<^verbatim>\<open>_all\<close> and \<^verbatim>\<open>_heads\<close> are as before, every other list object,
  node and edge is as before, and the next call of the accessor returns the elements it
  returned the first time. The same holds for the accessor \<^verbatim>\<open>heads\<close>.
\<close>

theorem accessors_return_fresh_copies:
  assumes "p_layers p lid = Some L" and "l_all L < next_ref p" and "l_heads L < next_ref p"
  shows "get_list (snd (Layer_all lid p)) (fst (Layer_all lid p)) = get_list p (l_all L) \<and>
         fst (Layer_all lid p) \<noteq> l_all L \<and> fst (Layer_all lid p) \<noteq> l_heads L \<and>
         the_layer (set_list (fst (Layer_all lid p)) xs (snd (Layer_all lid p))) lid = L \<and>
         get_list (set_list (fst (Layer_all lid p)) xs (snd (Layer_all lid p))) (l_all L)
           = get_list p (l_all L) \<and>
         get_list (set_list (fst (Layer_all lid p)) xs (snd (Layer_all lid p))) (l_heads L)
           = get_list p (l_heads L) \<and>
         (\<forall>r'. r' \<noteq> fst (Layer_all lid p) \<longrightarrow>
            list_heap (set_list (fst (Layer_all lid p)) xs (snd (Layer_all lid p))) r'
              = list_heap p r') \<and>
         node_heap (set_list (fst (Layer_all lid p)) xs (snd (Layer_all lid p))) = node_heap p \<and>
         edge_heap (set_list (fst (Layer_all lid p)) xs (snd (Layer_all lid p))) = edge_heap p \<and>
         get_list (snd (Layer_all lid (set_list (fst (Layer_all lid p)) xs (snd (Layer_all lid p)))))
             (fst (Layer_all lid (set_list (fst (Layer_all lid p)) xs (snd (Layer_all lid p)))))
           = get_list p (l_all L) \<and>
         get_list (snd (Layer_heads lid p)) (fst (Layer_heads lid p)) = get_list p (l_heads L) \<and>
         fst (Layer_heads lid p) \<noteq> l_all L \<and> fst (Layer_heads lid p) \<noteq> l_heads L \<and>
         the_layer (set_list (fst (Layer_heads lid p)) xs (snd (Layer_heads lid p))) lid = L \<and>
         get_list (set_list (fst (Layer_heads lid p)) xs (snd (Layer_heads lid p))) (l_all L)
           = get_list p (l_all L) \<and>
         get_list (set_list (fst (Layer_heads lid p)) xs (snd (Layer_heads lid p))) (l_heads L)
           = get_list p (l_heads L) \<and>
         get_list (snd (Layer_heads lid (set_list (fst (Layer_heads lid p)) xs (snd (Layer_heads lid p)))))
             (fst (Layer_heads lid (set_list (fst (Layer_heads lid p)) xs (snd (Layer_heads lid p)))))
           = get_list p (l_heads L)"
  using assms
  by (auto simp: Layer_all_def Layer_heads_def list_copy_def set_list_def get_list_def
      the_layer_def)

theorem accessors_return_fresh_copies_witness:
  "p_layers three_nodes ''1'' = Some \<lparr>l_attrib = Map.empty, l_all = 0, l_heads = 1\<rparr> \<and>
   next_ref three_nodes = 5 \<and>
   fst (Layer_all ''1'' three_nodes) = 5 \<and>
   get_list (snd (Layer_all ''1'' three_nodes)) 5 = [2, 3, 4] \<and>
   get_list (set_list 5 [] (snd (Layer_all ''1'' three_nodes))) 0 = [2, 3, 4] \<and>
   get_list (snd (Layer_all ''1'' (set_list 5 [] (snd (Layer_all ''1'' three_nodes)))))
     (fst (Layer_all ''1'' (set_list 5 [] (snd (Layer_all ''1'' three_nodes))))) = [2, 3, 4]"
proof -
  let ?L = "\<lparr>l_attrib = Map.empty, l_all = 0, l_heads = 1\<rparr>"
  have l: "p_layers three_nodes ''1'' = Some ?L"
    by (simp add: three_nodes_def store_eval)
  have n: "next_ref three_nodes = 5"
    by (simp add: three_nodes_def store_eval)
  have a: "get_list three_nodes 0 = [2, 3, 4]"
    by (simp add: three_nodes_def store_eval)
  have f: "fst (Layer_all ''1'' three_nodes) = 5"
    using l n by (simp add: Layer_all_def list_copy_def)
  have b1: "l_all ?L < next_ref three_nodes" and b2: "l_heads ?L < next_ref three_nodes"
    using n by simp_all
  show ?thesis
    using accessors_return_fresh_copies [OF l b1 b2, of "[]"] l n a f
    by simp
qed

text \<open>
  Claim C4 as stated fails when the node already has an edge to the child: node 2 has the
  edge 5 to node 3, \<^verbatim>\<open>add\<close> creates the edge 6, and after the matching
  \<^verbatim>\<open>remove\<close>, given the created edge 6 or the child 3, the other edge is still
  there: 3 is a child of 2 and 2 a parent of 3.
\<close>

theorem matching_remove_keeps_other_edge:
  "n_outgoing (the_node one_edge 2) = [5] \<and>
   fst (Node_add 2 ''B'' 3 None one_edge) = Inr () \<and>
   n_outgoing (the_node second_edge 2) = [5, 6] \<and>
   created_edge one_edge second_edge 2 6 \<and>
   fst (Node_remove 2 (AnEdge 6) second_edge) = Inr () \<and>
   3 \<in> set (Node_children (snd (Node_remove 2 (AnEdge 6) second_edge)) 2) \<and>
   2 \<in> set (Node_parents (snd (Node_remove 2 (AnEdge 6) second_edge)) 3) \<and>
   fst (Node_remove 2 (ANode 3) second_edge) = Inr () \<and>
   3 \<in> set (Node_children (snd (Node_remove 2 (ANode 3) second_edge)) 2) \<and>
   2 \<in> set (Node_parents (snd (Node_remove 2 (ANode 3) second_edge)) 3)"
  by (simp add: created_edge_def second_edge_def one_edge_def three_nodes_def store_eval)

text \<open>
  Claim C4, amended. In a mutable passage in which the layers of \<open>nd\<close> and \<open>child\<close>
  exist, \<^verbatim>\<open>nd.add(tag, child)\<close> returns, and after it \<open>child\<close> is among the children
  of \<open>nd\<close> and \<open>nd\<close> among the parents of \<open>child\<close>, whatever edges there were before.
  If moreover there was no edge from \<open>nd\<close> to \<open>child\<close> before the add (\<open>child\<close> was
  not among the children of \<open>nd\<close>, nor \<open>nd\<close> among the parents of \<open>child\<close>; the edges
  in the two adjacency lists are objects allocated earlier), then the matching
  \<^verbatim>\<open>remove\<close>, given the child or the created edge, returns, and after it neither
  membership holds.
\<close>

theorem add_then_matching_remove:
  assumes nf: "\<not> frozen p"
    and ln: "Node_layer p nd = Inr l1" and lc: "Node_layer p child = Inr l2"
  shows "fst (Node_add nd tag child a p) = Inr () \<and>
         child \<in> set (Node_children (snd (Node_add nd tag child a p)) nd) \<and>
         nd \<in> set (Node_parents (snd (Node_add nd tag child a p)) child) \<and>
         (child \<notin> set (Node_children p nd) \<and> nd \<notin> set (Node_parents p child) \<and>
          list_all (\<lambda>e. e < next_ref p) (n_outgoing (the_node p nd)) \<and>
          list_all (\<lambda>e. e < next_ref p) (n_incoming (the_node p child)) \<and>
          (x = ANode child \<or>
             (\<exists>e. x = AnEdge e \<and> created_edge p (snd (Node_add nd tag child a p)) nd e)) \<longrightarrow>
          fst (Node_remove nd x (snd (Node_add nd tag child a p))) = Inr () \<and>
          child \<notin> set (Node_children
                        (snd (Node_remove nd x (snd (Node_add nd tag child a p)))) nd) \<and>
          nd \<notin> set (Node_parents
                     (snd (Node_remove nd x (snd (Node_add nd tag child a p)))) child))"
proof -
  let ?e = "next_ref p"
  let ?p1 = "snd (Node_add nd tag child a p)"
  let ?out = "n_outgoing (the_node p nd)" and ?inc = "n_incoming (the_node p child)"
  note add = Node_add_effect [OF nf ln lc, of tag a]
  have ok1: "fst (Node_add nd tag child a p) = Inr ()"
    using add by simp
  have ed: "the_edge ?p1 e = (if e = ?e
      then \<lparr>e_tag = tag, e_parent = nd, e_child = child, e_attrib = AttributeDict_init a\<rparr>
      else the_edge p e)" for e
    using add [of nd] nf by (simp add: the_edge_with_edge)
  have mo: "mset (n_outgoing (the_node ?p1 nd)) = add_mset ?e (mset ?out)"
    using add [of nd] by simp
  have mi: "mset (n_incoming (the_node ?p1 child)) = add_mset ?e (mset ?inc)"
    using add [of child] by simp
  have so: "set (n_outgoing (the_node ?p1 nd)) = insert ?e (set ?out)"
    using mo by (metis set_mset_add_mset_insert set_mset_mset)
  have si: "set (n_incoming (the_node ?p1 child)) = insert ?e (set ?inc)"
    using mi by (metis set_mset_add_mset_insert set_mset_mset)
  have c1: "child \<in> set (Node_children ?p1 nd)"
    by (simp add: Node_children_def so ed image_iff)
  have p1: "nd \<in> set (Node_parents ?p1 child)"
    by (simp add: Node_parents_def si ed image_iff)
  have rest: "fst (Node_remove nd x ?p1) = Inr () \<and>
      child \<notin> set (Node_children (snd (Node_remove nd x ?p1)) nd) \<and>
      nd \<notin> set (Node_parents (snd (Node_remove nd x ?p1)) child)"
    if nc: "child \<notin> set (Node_children p nd)" and np: "nd \<notin> set (Node_parents p child)"
      and ao: "list_all (\<lambda>e. e < next_ref p) ?out"
      and ai: "list_all (\<lambda>e. e < next_ref p) ?inc"
      and x: "x = ANode child \<or> (\<exists>e. x = AnEdge e \<and> created_edge p ?p1 nd e)"
  proof -
    have fo: "?e \<notin> set ?out" and fi: "?e \<notin> set ?inc"
      using ao ai by (auto simp: list_all_iff)
    have old: "\<forall>e' \<in> set ?out. e_child (the_edge ?p1 e') \<noteq> child"
      using nc fo by (auto simp: Node_children_def ed)
    have ce: "e_child (the_edge ?p1 ?e) = child"
      by (simp add: ed)
    have res: "resolve_edge ?p1 nd x = Inr ?e"
    proof -
      from x show ?thesis
      proof
        assume "x = ANode child"
        then show ?thesis using resolve_created(2) [OF mo old ce] by simp
      next
        assume "\<exists>e. x = AnEdge e \<and> created_edge p ?p1 nd e"
        then obtain e where xe: "x = AnEdge e" and cr: "created_edge p ?p1 nd e" by blast
        from cr have "e = ?e" by (auto simp: created_edge_def so)
        then show ?thesis using xe resolve_created(1) [OF mo old ce] by simp
      qed
    qed
    have l1: "Node_layer ?p1 nd = Inr l1"
      using add [of nd] ln by simp
    have l2: "Node_layer ?p1 (e_child (the_edge ?p1 ?e)) = Inr l2"
      unfolding ce using add [of child] lc by simp
    have inm: "?e \<in> set (n_incoming (the_node ?p1 (e_child (the_edge ?p1 ?e))))"
      by (simp add: ce si)
    note un = unlink_edge_effect [OF l1 l2 inm]
    have nf1: "\<not> frozen ?p1"
      using add [of nd] nf by simp
    have rm: "Node_remove nd x ?p1 = unlink_edge nd ?e ?p1"
      using nf1 res by (simp add: Node_remove_def ModifyPassage_def remove_fn_def)
    let ?p2 = "snd (Node_remove nd x ?p1)"
    have ok2: "fst (Node_remove nd x ?p1) = Inr ()"
      using un rm by simp
    have ed2: "the_edge ?p2 = the_edge ?p1"
      using un [of nd] rm by simp
    have mo2: "mset (n_outgoing (the_node ?p2 nd)) = mset ?out"
      using un [of nd] rm mo by simp
    have mi2: "mset (n_incoming (the_node ?p2 child)) = mset ?inc"
      using un [of child] rm mi by (simp add: ce)
    have so2: "set (n_outgoing (the_node ?p2 nd)) = set ?out"
      using mo2 by (metis set_mset_mset)
    have si2: "set (n_incoming (the_node ?p2 child)) = set ?inc"
      using mi2 by (metis set_mset_mset)
    have oldp: "\<forall>e' \<in> set ?inc. e_parent (the_edge ?p1 e') \<noteq> nd"
      using np fi by (auto simp: Node_parents_def ed)
    have c2: "child \<notin> set (Node_children ?p2 nd)"
      using old by (auto simp: Node_children_def so2 ed2)
    have p2: "nd \<notin> set (Node_parents ?p2 child)"
      using oldp by (auto simp: Node_parents_def si2 ed2)
    from ok2 c2 p2 show ?thesis by blast
  qed
  from ok1 c1 p1 rest show ?thesis by blast
qed

text \<open>The amended claim at the passage \<open>three_nodes\<close>, which has no edge, and at the
  passage \<open>one_edge\<close>, in which node 2 already has an edge to node 3.\<close>

theorem add_then_matching_remove_witness:
  "\<not> frozen three_nodes \<and>
   Node_layer three_nodes 2 = Inr ''1'' \<and> Node_layer three_nodes 3 = Inr ''1'' \<and>
   Node_children three_nodes 2 = [] \<and> Node_parents three_nodes 3 = [] \<and>
   fst (Node_add 2 ''A'' 3 None three_nodes) = Inr () \<and>
   3 \<in> set (Node_children (snd (Node_add 2 ''A'' 3 None three_nodes)) 2) \<and>
   2 \<in> set (Node_parents (snd (Node_add 2 ''A'' 3 None three_nodes)) 3) \<and>
   fst (Node_remove 2 (ANode 3) (snd (Node_add 2 ''A'' 3 None three_nodes))) = Inr () \<and>
   3 \<notin> set (Node_children
               (snd (Node_remove 2 (ANode 3) (snd (Node_add 2 ''A'' 3 None three_nodes)))) 2) \<and>
   2 \<notin> set (Node_parents
               (snd (Node_remove 2 (ANode 3) (snd (Node_add 2 ''A'' 3 None three_nodes)))) 3) \<and>
   \<not> frozen one_edge \<and>
   Node_layer one_edge 2 = Inr ''1'' \<and> Node_layer one_edge 3 = Inr ''1'' \<and>
   fst (Node_add 2 ''B'' 3 None one_edge) = Inr () \<and>
   3 \<in> set (Node_children (snd (Node_add 2 ''B'' 3 None one_edge)) 2) \<and>
   2 \<in> set (Node_parents (snd (Node_add 2 ''B'' 3 None one_edge)) 3)"
proof -
  have nf: "\<not> frozen three_nodes"
    by (simp add: three_nodes_def store_eval)
  have l2: "Node_layer three_nodes 2 = Inr ''1''"
    by (simp add: three_nodes_def store_eval)
  have l3: "Node_layer three_nodes 3 = Inr ''1''"
    by (simp add: three_nodes_def store_eval)
  have o: "n_outgoing (the_node three_nodes 2) = []"
    by (simp add: three_nodes_def store_eval)
  have i: "n_incoming (the_node three_nodes 3) = []"
    by (simp add: three_nodes_def store_eval)
  have nf': "\<not> frozen one_edge"
    by (simp add: one_edge_def three_nodes_def store_eval)
  have l2': "Node_layer one_edge 2 = Inr ''1''"
    by (simp add: one_edge_def three_nodes_def store_eval)
  have l3': "Node_layer one_edge 3 = Inr ''1''"
    by (simp add: one_edge_def three_nodes_def store_eval)
  show ?thesis
    using add_then_matching_remove [OF nf l2 l3, where x = "ANode 3" and tag = "''A''" and a = None]
      add_then_matching_remove [OF nf' l2' l3', where x = "ANode 3" and tag = "''B''" and a = None]
      nf l2 l3 nf' l2' l3'
    by (simp add: Node_children_def Node_parents_def o i)
qed

section \<open>Properties of the Transition System\<close>

text \<open>
  Claim C6, at two edges that the claim accepts. In the configuration of the text
  \<^verbatim>\<open>a a\<close>, after SHIFT the stack holds token 0 and the buffer token 1; EDGE(A) is an
  edge from token 0 to token 1, two different nodes, and \<^verbatim>\<open>Edge.add\<close> raises
  \<^verbatim>\<open>Trying to create self-loop edge\<close>, because \<^verbatim>\<open>Node.__eq__\<close> compares text and
  outgoing edges, not identity. In the configuration of the gold passage with the one
  terminal \<^verbatim>\<open>a\<close>, NODE(A) with the gold ID \<^verbatim>\<open>1.2\<close> creates node 2 and the edge from
  2 to token 0 and returns True. A second NODE(A), with the gold ID \<^verbatim>\<open>1.3\<close>, creates
  node 3 and the edge from 3 to token 0, which differs from the only existing edge in
  its parent; \<^verbatim>\<open>Edge.add\<close> raises \<^verbatim>\<open>Trying to create edge twice\<close>, because
  \<^verbatim>\<open>Edge.__eq__\<close> does not look at the parent and the edge is searched in the child's
  incoming list.
\<close>

theorem Edge_add_rejects_new_edges:
  "seen (apply_actions [Action ''SHIFT'' None] two_equal_tokens)
     = Inr (True, [0], [1], [0, 1, 2], []) \<and>
   apply_actions [Action ''SHIFT'' None, Action ''EDGE'' (Some ''A'')] two_equal_tokens
     = Inl (AssertionError ''Trying to create self-loop edge'') \<and>
   seen (apply_actions [GoldAction ''NODE'' (Some ''A'') (''1'', 2)] gold_token)
     = Inr (True, [2], [0], [0, 1, 2], [new_edge 2 0 (Some ''A'') False]) \<and>
   apply_actions [GoldAction ''NODE'' (Some ''A'') (''1'', 2),
                  GoldAction ''NODE'' (Some ''A'') (''1'', 3)] gold_token
     = Inl (AssertionError ''Trying to create edge twice'') \<and>
   new_edge 3 0 (Some ''A'') False \<noteq> new_edge 2 0 (Some ''A'') False"
  by (simp add: two_equal_tokens_def gold_token_def parse_eval seen_def edges_of_def)

text \<open>
  Claim C9, at two actions whose preconditions hold. In the configuration of the text
  \<^verbatim>\<open>a\<close> the buffer holds token 0, and NODE(A) has a tag and a buffer head; after SHIFT
  the stack holds token 0, and ROOT(C) has a tag and a stack top. Both create an edge
  that passes the four assertions of \<^verbatim>\<open>Edge.add\<close> and is appended to both lists; then
  the closing \<^verbatim>\<open>print\<close> of \<^verbatim>\<open>Edge.add\<close> raises TypeError, because the new node of
  NODE, and the root, have neither a text nor a gold ID, and \<^verbatim>\<open>Node.__str__\<close> returns
  their integer index. \<^verbatim>\<open>apply_action\<close> does not return True. FINISH returns False
  and the configuration it was given.
\<close>

theorem apply_action_raises_on_unnamed_node:
  "c_buffer one_token = [0] \<and> c_stack one_token = [] \<and>
   apply_action (Action ''NODE'' (Some ''A'')) one_token = Inl TypeError \<and>
   seen (apply_actions [Action ''SHIFT'' None] one_token) = Inr (True, [0], [], [0, 1], []) \<and>
   apply_actions [Action ''SHIFT'' None, Action ''ROOT'' (Some ''C'')] one_token
     = Inl TypeError \<and>
   apply_action (Action ''FINISH'' None) one_token = Inr (False, one_token)"
  by (simp add: one_token_def parse_eval seen_def edges_of_def)

section \<open>Properties of the Graph Finalizer\<close>

subsection \<open>The loop of topological_sort\<close>

text \<open>An invariant that every turn of the loop keeps holds of the result when the loop
  returns; and the loop returns when every turn also descends in a well-founded
  relation.\<close>

lemma level_loop_invariant:
  assumes run: "level_loop h s = Some r"
    and inv: "I s"
    and step: "\<And>t. I t \<Longrightarrow> fst t \<noteq> [] \<Longrightarrow> I (level_step h t)"
  shows "I ([], r)"
proof -
  have "h = h \<longrightarrow> I s \<longrightarrow> I ([], r)"
  proof (rule level_loop.raw_induct [where P = "\<lambda>h' s r. h' = h \<longrightarrow> I s \<longrightarrow> I ([], r)", OF _ run])
    fix f h' s r
    assume ih: "\<And>h' s r. f h' s = Some r \<Longrightarrow> h' = h \<longrightarrow> I s \<longrightarrow> I ([], r)"
      and body: "(if fst s = [] then Some (snd s) else f h' (level_step h' s)) = Some r"
    show "h' = h \<longrightarrow> I s \<longrightarrow> I ([], r)"
    proof (intro impI)
      assume h': "h' = h" and i: "I s"
      show "I ([], r)"
      proof (cases "fst s = []")
        case True
        with body have "r = snd s" by simp
        with True have "s = ([], r)" by (cases s) simp
        with i show ?thesis by simp
      next
        case False
        with body have "f h' (level_step h' s) = Some r" by simp
        from ih [OF this] h' have "I (level_step h s) \<longrightarrow> I ([], r)" by simp
        with step [OF i False] show ?thesis by simp
      qed
    qed
  qed
  with inv show ?thesis by simp
qed

lemma level_loop_terminates:
  assumes wf: "wf R"
    and inv: "I s"
    and step: "\<And>t. I t \<Longrightarrow> fst t \<noteq> [] \<Longrightarrow> I (level_step h t) \<and> (level_step h t, t) \<in> R"
  shows "\<exists>r. level_loop h s = Some r"
  using wf inv
proof (induction s rule: wf_induct_rule)
  case (less s)
  show ?case
  proof (cases "fst s = []")
    case True
    then show ?thesis by (subst level_loop.simps) simp
  next
    case False
    from step [OF less.prems False] less.IH
    obtain r where "level_loop h (level_step h s) = Some r" by blast
    with False show ?thesis by (subst level_loop.simps) simp
  qed
qed

definition parent_rel :: "config \<Rightarrow> (nat \<times> nat) set" where
  "parent_rel c = {(p, n). n \<in> set (c_nodes c) \<and> p \<in> set (parents_of (c_heap c) n)}"

fun before :: "'a list \<Rightarrow> 'a \<Rightarrow> 'a \<Rightarrow> bool" where
  "before [] a b = False"
| "before (x # xs) a b = (if x = a then b \<in> set xs else before xs a b)"

definition level_of :: "(nat \<rightharpoonup> tnode) \<Rightarrow> (nat \<rightharpoonup> nat) \<Rightarrow> nat \<Rightarrow> nat" where
  "level_of h lbi n =
     (if parents_of h n = [] then 0 else Suc (maximum (parent_levels h lbi n)))"

definition in_level :: "levels \<Rightarrow> nat \<Rightarrow> nat \<Rightarrow> bool" where
  "in_level lv l n \<longleftrightarrow> (\<exists>ns. (l, ns) \<in> set lv \<and> n \<in> set ns)"

lemma fold_max_ge: "(a::nat) \<le> fold max xs a"
proof (induction xs arbitrary: a)
  case Nil
  show ?case by simp
next
  case (Cons x xs)
  have "a \<le> max x a" by simp
  also have "\<dots> \<le> fold max xs (max x a)" by (rule Cons.IH)
  finally show ?case by simp
qed

lemma fold_max_mem: "x \<in> set xs \<Longrightarrow> (x::nat) \<le> fold max xs a"
proof (induction xs arbitrary: a)
  case Nil
  then show ?case by simp
next
  case (Cons y ys)
  show ?case
  proof (cases "x = y")
    case True
    have "x \<le> max y a" using True by simp
    also have "\<dots> \<le> fold max ys (max y a)" by (rule fold_max_ge)
    finally show ?thesis by simp
  next
    case False
    with Cons.prems have "x \<in> set ys" by simp
    from Cons.IH [OF this] show ?thesis by simp
  qed
qed

lemma maximum_ge: "x \<in> set xs \<Longrightarrow> x \<le> maximum xs"
proof (cases xs)
  case Nil
  assume "x \<in> set xs"
  with Nil show ?thesis by simp
next
  case (Cons y ys)
  assume "x \<in> set xs"
  with Cons have "x = y \<or> x \<in> set ys" by auto
  then show ?thesis
    using Cons fold_max_ge [of y ys] fold_max_mem [of x ys y] by auto
qed

lemma in_level_Nil [simp]: "\<not> in_level [] l n"
  by (simp add: in_level_def)

lemma in_level_Cons:
  "in_level ((k, ns) # lv) l n \<longleftrightarrow> (k = l \<and> n \<in> set ns) \<or> in_level lv l n"
  by (auto simp: in_level_def)

lemma in_level_append:
  "in_level (levels_append l x lv) l' n \<longleftrightarrow> in_level lv l' n \<or> (l' = l \<and> n = x)"
proof (induction lv)
  case Nil
  show ?case by (auto simp: in_level_Cons)
next
  case (Cons g lv)
  obtain k ns where g: "g = (k, ns)" by (cases g)
  show ?case
  proof (cases "k = l")
    case True
    with g show ?thesis by (auto simp: in_level_Cons)
  next
    case False
    with g Cons.IH show ?thesis by (auto simp: in_level_Cons)
  qed
qed

lemma keys_levels_append:
  "map fst (levels_append l x lv) =
     (if l \<in> set (map fst lv) then map fst lv else map fst lv @ [l])"
proof (induction lv)
  case Nil
  show ?case by simp
next
  case (Cons g lv)
  obtain k ns where g: "g = (k, ns)" by (cases g)
  show ?case
  proof (cases "k = l")
    case True
    with g show ?thesis by simp
  next
    case False
    with g Cons.IH show ?thesis by simp
  qed
qed

lemma distinct_keys_levels_append:
  "distinct (map fst lv) \<Longrightarrow> distinct (map fst (levels_append l x lv))"
  by (simp only: keys_levels_append) simp

lemma distinct_lists_levels_append:
  assumes "\<forall>g \<in> set lv. distinct (snd g)" and "\<not> in_level lv l x"
  shows "\<forall>g \<in> set (levels_append l x lv). distinct (snd g)"
  using assms
proof (induction lv)
  case Nil
  show ?case by simp
next
  case (Cons g lv)
  obtain k ns where g: "g = (k, ns)" by (cases g)
  from Cons.prems g have dn: "distinct ns" and dl: "\<forall>g \<in> set lv. distinct (snd g)" by simp_all
  show ?case
  proof (cases "k = l")
    case True
    from Cons.prems(2) g True have "x \<notin> set ns" by (simp add: in_level_Cons)
    with dn dl g True show ?thesis by simp
  next
    case False
    from Cons.prems(2) g have "\<not> in_level lv l x" by (simp add: in_level_Cons)
    from Cons.IH [OF dl this] dn g False show ?thesis by simp
  qed
qed

lemma before_append1: "a \<in> set xs \<Longrightarrow> b \<in> set ys \<Longrightarrow> before (xs @ ys) a b"
  by (induction xs) auto

lemma before_append2: "a \<notin> set xs \<Longrightarrow> before ys a b \<Longrightarrow> before (xs @ ys) a b"
  by (induction xs) auto

lemma before_groups:
  fixes gs :: "(nat \<times> nat list) list"
  assumes "sorted (map fst gs)"
    and "\<forall>g \<in> set gs. set (F g) = set (snd g)"
    and "\<forall>g \<in> set gs. p \<in> set (snd g) \<longrightarrow> fst g = lp"
    and "\<exists>g \<in> set gs. p \<in> set (snd g)"
    and "\<exists>g \<in> set gs. fst g = ln \<and> n \<in> set (snd g)"
    and "lp < ln"
  shows "before (concat (map F gs)) p n"
  using assms
proof (induction gs)
  case Nil
  then show ?case by simp
next
  case (Cons g gs)
  from Cons.prems(1) have srt: "sorted (map fst gs)" and low: "\<forall>k \<in> set gs. fst g \<le> fst k"
    by auto
  from Cons.prems(2) have Fg: "set (F g) = set (snd g)" and Fs: "\<forall>g \<in> set gs. set (F g) = set (snd g)"
    by auto
  from Cons.prems(3) have ug: "p \<in> set (snd g) \<longrightarrow> fst g = lp"
    and us: "\<forall>g \<in> set gs. p \<in> set (snd g) \<longrightarrow> fst g = lp"
    by auto
  from Cons.prems(5) obtain gn where gn: "gn \<in> set (g # gs)" "fst gn = ln" "n \<in> set (snd gn)"
    by blast
  from Cons.prems(4) obtain gp where gp: "gp \<in> set (g # gs)" "p \<in> set (snd gp)"
    by blast
  show ?case
  proof (cases "p \<in> set (snd g)")
    case True
    with ug have "fst g = lp" by simp
    with gn Cons.prems(6) have "gn \<noteq> g" by auto
    with gn have "gn \<in> set gs" by simp
    with gn Fs have "n \<in> set (concat (map F gs))" by auto
    with True Fg have "before (F g @ concat (map F gs)) p n"
      by (intro before_append1) simp_all
    then show ?thesis by simp
  next
    case False
    with gp have gps: "gp \<in> set gs" by auto
    with us gp have "fst gp = lp" by simp
    with low gps have "fst g \<le> lp" by auto
    with Cons.prems(6) gn have "gn \<noteq> g" by auto
    with gn have gns: "gn \<in> set gs" by simp
    have "before (concat (map F gs)) p n"
      using srt Fs us gps gp(2) gns gn(2,3) Cons.prems(6)
      by (intro Cons.IH) blast+
    with False Fg have "before (F g @ concat (map F gs)) p n"
      by (intro before_append2) simp_all
    then show ?thesis by simp
  qed
qed

lemma rank_less:
  assumes fin: "finite R" and ac: "acyclic R" and ux: "(u, x) \<in> R"
  shows "card {a. (a, u) \<in> R\<^sup>+} < card {a. (a, x) \<in> R\<^sup>+}"
proof (rule psubset_card_mono)
  have "{a. (a, x) \<in> R\<^sup>+} \<subseteq> Domain R"
    by (auto dest: tranclD)
  with fin show "finite {a. (a, x) \<in> R\<^sup>+}"
    by (meson finite_Domain finite_subset)
  have "u \<notin> {a. (a, u) \<in> R\<^sup>+}"
    using ac by (auto simp: acyclic_def)
  moreover have "u \<in> {a. (a, x) \<in> R\<^sup>+}"
    using ux by auto
  moreover have "{a. (a, u) \<in> R\<^sup>+} \<subseteq> {a. (a, x) \<in> R\<^sup>+}"
    using ux by (auto intro: trancl_into_trancl)
  ultimately show "{a. (a, u) \<in> R\<^sup>+} \<subset> {a. (a, x) \<in> R\<^sup>+}"
    by blast
qed

definition closed_graph :: "config \<Rightarrow> bool" where
  "closed_graph c \<longleftrightarrow>
     (\<forall>n \<in> set (c_nodes c).
        set (parents_of (c_heap c) n) \<subseteq> set (c_nodes c) \<and>
        (\<forall>e \<in> set (tn_outgoing (the_tnode (c_heap c) n)).
           te_child e \<in> set (c_nodes c) \<and> n \<in> set (parents_of (c_heap c) (te_child e))))"

lemma parent_rel_subset:
  "closed_graph c \<Longrightarrow> parent_rel c \<subseteq> set (c_nodes c) \<times> set (c_nodes c)"
  by (auto simp: closed_graph_def parent_rel_def)

lemma finite_parent_rel:
  assumes "closed_graph c"
  shows "finite (parent_rel c)"
proof (rule finite_subset)
  show "parent_rel c \<subseteq> set (c_nodes c) \<times> set (c_nodes c)"
    using assms by (rule parent_rel_subset)
  show "finite (set (c_nodes c) \<times> set (c_nodes c))"
    by simp
qed

lemma sink_below:
  assumes cl: "closed_graph c" and ac: "acyclic (parent_rel c)" and n: "n \<in> set (c_nodes c)"
  shows "\<exists>t \<in> set (sinks c). (n, t) \<in> (parent_rel c)\<^sup>*"
proof -
  have "wf ((parent_rel c)\<inverse>)"
    using finite_parent_rel [OF cl] ac by (rule finite_acyclic_wf_converse)
  then show ?thesis
    using n
  proof (induction n rule: wf_induct_rule)
    case (less n)
    show ?case
    proof (cases "tn_outgoing (the_tnode (c_heap c) n) = []")
      case True
      with less.prems have "n \<in> set (sinks c)" by (simp add: sinks_def)
      then show ?thesis by blast
    next
      case False
      then obtain e where e: "e \<in> set (tn_outgoing (the_tnode (c_heap c) n))"
        by (cases "tn_outgoing (the_tnode (c_heap c) n)") auto
      with cl less.prems have ch: "te_child e \<in> set (c_nodes c)"
        and pa: "n \<in> set (parents_of (c_heap c) (te_child e))"
        by (auto simp: closed_graph_def)
      then have r: "(n, te_child e) \<in> parent_rel c"
        by (simp add: parent_rel_def)
      then have "(te_child e, n) \<in> (parent_rel c)\<inverse>" by simp
      from less.IH [OF this ch] obtain t where "t \<in> set (sinks c)"
        and "(te_child e, t) \<in> (parent_rel c)\<^sup>*" by blast
      with r show ?thesis by (meson converse_rtrancl_into_rtrancl)
    qed
  qed
qed

definition sort_inv :: "config \<Rightarrow> sort_state \<Rightarrow> bool" where
  "sort_inv c s \<longleftrightarrow>
     set (fst s) \<subseteq> set (c_nodes c) \<and>
     dom (snd (snd s)) \<subseteq> set (c_nodes c) \<and>
     (\<forall>n l. snd (snd s) n = Some l \<longrightarrow>
        set (parents_of (c_heap c) n) \<subseteq> dom (snd (snd s)) \<and>
        l = level_of (c_heap c) (snd (snd s)) n) \<and>
     (\<forall>n l. in_level (fst (snd s)) l n \<longleftrightarrow> snd (snd s) n = Some l) \<and>
     distinct (map fst (fst (snd s))) \<and>
     (\<forall>g \<in> set (fst (snd s)). distinct (snd g)) \<and>
     (\<forall>n \<in> set (c_nodes c). snd (snd s) n = None \<longrightarrow>
        (\<exists>t \<in> set (fst s). (n, t) \<in> (parent_rel c)\<^sup>*))"

lemma ancestors_levelled:
  assumes cl: "\<forall>n l. lbi n = Some l \<longrightarrow> set (parents_of (c_heap c) n) \<subseteq> dom lbi"
    and nx: "(n, x) \<in> (parent_rel c)\<^sup>*" and x: "x \<in> dom lbi"
  shows "n \<in> dom lbi"
  using nx x
proof (induction rule: converse_rtrancl_induct)
  case base
  then show ?case .
next
  case (step y z)
  from step.IH [OF step.prems] obtain l where "lbi z = Some l" by blast
  with cl have "set (parents_of (c_heap c) z) \<subseteq> dom lbi" by blast
  moreover from step.hyps(1) have "y \<in> set (parents_of (c_heap c) z)"
    by (simp add: parent_rel_def)
  ultimately show ?case by blast
qed

lemma parent_levels_update:
  assumes "set (parents_of h n) \<subseteq> dom lbi" and "x \<notin> dom lbi"
  shows "parent_levels h (lbi(x \<mapsto> l)) n = parent_levels h lbi n"
  unfolding parent_levels_def
proof (rule map_cong [OF refl])
  fix p
  assume "p \<in> set (parents_of h n)"
  with assms have "p \<noteq> x" by auto
  then show "the ((lbi(x \<mapsto> l)) p) = the (lbi p)" by simp
qed

lemma level_of_update:
  assumes "set (parents_of h n) \<subseteq> dom lbi" and "x \<notin> dom lbi"
  shows "level_of h (lbi(x \<mapsto> l)) n = level_of h lbi n"
  unfolding level_of_def by (simp only: parent_levels_update [OF assms])

lemma sort_inv_pop:
  assumes inv: "sort_inv c (rest @ [x], lv, lbi)" and x: "lbi x \<noteq> None"
  shows "sort_inv c (rest, lv, lbi)"
proof -
  have cl: "\<forall>n l. lbi n = Some l \<longrightarrow> set (parents_of (c_heap c) n) \<subseteq> dom lbi"
    using inv by (simp add: sort_inv_def)
  have "\<exists>t \<in> set rest. (n, t) \<in> (parent_rel c)\<^sup>*"
    if n: "n \<in> set (c_nodes c)" and u: "lbi n = None" for n
  proof -
    from inv n u obtain t where t: "t \<in> set (rest @ [x])" "(n, t) \<in> (parent_rel c)\<^sup>*"
      unfolding sort_inv_def by (metis fst_conv snd_conv)
    have "t \<noteq> x"
    proof
      assume "t = x"
      with t x ancestors_levelled [OF cl, of n x] have "n \<in> dom lbi" by auto
      with u show False by auto
    qed
    with t show ?thesis by auto
  qed
  with inv show ?thesis
    by (simp add: sort_inv_def)
qed

lemma sort_inv_push:
  assumes inv: "sort_inv c (rest @ [x], lv, lbi)" and cl: "closed_graph c"
    and u: "unexplored lbi (parents_of (c_heap c) x) \<noteq> []"
  shows "sort_inv c (rest @ concat (map (\<lambda>p. [x, p]) (unexplored lbi (parents_of (c_heap c) x))),
           lv, lbi)"
proof -
  let ?U = "unexplored lbi (parents_of (c_heap c) x)"
  have xs: "set (concat (map (\<lambda>p. [x, p]) ?U)) = insert x (set ?U)"
    using u by (cases ?U) auto
  have xV: "x \<in> set (c_nodes c)"
    using inv by (simp add: sort_inv_def)
  then have "set ?U \<subseteq> set (c_nodes c)"
    using cl by (auto simp: closed_graph_def unexplored_def)
  with inv xs show ?thesis
    by (auto simp: sort_inv_def)
qed

lemma sort_inv_set_level:
  assumes inv: "sort_inv c (rest @ [x], lv, lbi)" and x: "lbi x = None"
    and ps: "set (parents_of (c_heap c) x) \<subseteq> dom lbi"
    and l: "l = level_of (c_heap c) lbi x"
  shows "sort_inv c (set_level l x rest lv lbi)"
proof -
  let ?h = "c_heap c" and ?lbi = "lbi(x \<mapsto> l)"
  have xd: "x \<notin> dom lbi" using x by auto
  have xV: "x \<in> set (c_nodes c)" and rV: "set rest \<subseteq> set (c_nodes c)"
    and dV: "dom lbi \<subseteq> set (c_nodes c)"
    and i3: "\<forall>n l. lbi n = Some l \<longrightarrow>
        set (parents_of ?h n) \<subseteq> dom lbi \<and> l = level_of ?h lbi n"
    and i4: "\<forall>n l. in_level lv l n \<longleftrightarrow> lbi n = Some l"
    and i5: "distinct (map fst lv)" and i6: "\<forall>g \<in> set lv. distinct (snd g)"
    and i7: "\<forall>n \<in> set (c_nodes c). lbi n = None \<longrightarrow>
        (\<exists>t \<in> set (rest @ [x]). (n, t) \<in> (parent_rel c)\<^sup>*)"
    using inv by (simp_all add: sort_inv_def)
  have cl: "\<forall>n l. lbi n = Some l \<longrightarrow> set (parents_of ?h n) \<subseteq> dom lbi"
    using i3 by blast
  have a3: "set (parents_of ?h n) \<subseteq> dom ?lbi \<and> k = level_of ?h ?lbi n"
    if "?lbi n = Some k" for n k
  proof (cases "n = x")
    case True
    with that have "k = l" by simp
    with True ps xd l show ?thesis by (auto simp: level_of_update)
  next
    case False
    with that have "lbi n = Some k" by simp
    with i3 have "set (parents_of ?h n) \<subseteq> dom lbi" and "k = level_of ?h lbi n" by blast+
    with xd show ?thesis by (auto simp: level_of_update)
  qed
  have a4: "in_level (levels_append l x lv) k n \<longleftrightarrow> ?lbi n = Some k" for n k
    using i4 x by (auto simp: in_level_append)
  have nl: "\<not> in_level lv l x"
    using i4 x by simp
  have a7: "\<exists>t \<in> set rest. (n, t) \<in> (parent_rel c)\<^sup>*"
    if n: "n \<in> set (c_nodes c)" and u: "?lbi n = None" for n
  proof -
    from u have nx: "n \<noteq> x" and un: "lbi n = None" by (auto split: if_splits)
    from i7 n un obtain t where t: "t \<in> set (rest @ [x])" "(n, t) \<in> (parent_rel c)\<^sup>*"
      by blast
    have "t \<noteq> x"
    proof
      assume "t = x"
      with t nx have "(n, x) \<in> (parent_rel c)\<^sup>+"
        by (simp add: rtrancl_eq_or_trancl)
      then obtain p where np: "(n, p) \<in> (parent_rel c)\<^sup>*" and px: "(p, x) \<in> parent_rel c"
        by (meson tranclE rtrancl_eq_or_trancl trancl_into_rtrancl)
      from px have "p \<in> set (parents_of ?h x)" by (simp add: parent_rel_def)
      with ps have "p \<in> dom lbi" by blast
      from ancestors_levelled [OF cl np this] un show False by auto
    qed
    with t show ?thesis by auto
  qed
  show ?thesis
    unfolding sort_inv_def set_level_def
    using rV dV xV a3 a4 a7 distinct_keys_levels_append [OF i5]
      distinct_lists_levels_append [OF i6 nl]
    by (simp add: subset_iff)
qed

lemma unexplored_Nil: "unexplored lbi ps = [] \<Longrightarrow> set ps \<subseteq> dom lbi"
  by (auto simp: unexplored_def filter_empty_conv)

lemma sort_inv_step:
  assumes inv: "sort_inv c t" and ne: "fst t \<noteq> []" and cl: "closed_graph c"
  shows "sort_inv c (level_step (c_heap c) t)"
proof -
  obtain stack lv lbi where t: "t = (stack, lv, lbi)" by (cases t)
  let ?x = "last stack" and ?rest = "butlast stack" and ?h = "c_heap c"
  from ne t have st: "stack = ?rest @ [?x]" by simp
  with inv t have inv': "sort_inv c (?rest @ [?x], lv, lbi)" by simp
  show ?thesis
  proof (cases "lbi ?x \<noteq> None")
    case True
    with sort_inv_pop [OF inv'] t show ?thesis by (simp add: level_step_def)
  next
    case False
    then have x: "lbi ?x = None" by simp
    show ?thesis
    proof (cases "parents_of ?h ?x = []")
      case True
      then have "set (parents_of ?h ?x) \<subseteq> dom lbi" and "0 = level_of ?h lbi ?x"
        by (simp_all add: level_of_def)
      from sort_inv_set_level [OF inv' x this] x True t show ?thesis
        by (simp add: level_step_def)
    next
      case ps: False
      show ?thesis
      proof (cases "unexplored lbi (parents_of ?h ?x) = []")
        case True
        then have "set (parents_of ?h ?x) \<subseteq> dom lbi" by (rule unexplored_Nil)
        moreover have "Suc (maximum (parent_levels ?h lbi ?x)) = level_of ?h lbi ?x"
          using ps by (simp add: level_of_def)
        ultimately show ?thesis
          using sort_inv_set_level [OF inv' x] x ps True t by (simp add: level_step_def)
      next
        case False
        from sort_inv_push [OF inv' cl False] x ps False t show ?thesis
          by (simp add: level_step_def)
      qed
    qed
  qed
qed

definition sort_measure :: "config \<Rightarrow> sort_state \<Rightarrow> nat \<times> nat" where
  "sort_measure c s =
     (card (set (c_nodes c) - dom (snd (snd s))),
      if fst s = [] then 0
      else if snd (snd s) (last (fst s)) \<noteq> None then Suc (length (c_nodes c)) + length (fst s)
      else card {a. (a, last (fst s)) \<in> (parent_rel c)\<^sup>+})"

lemma rank_le:
  assumes cl: "closed_graph c"
  shows "card {a. (a, y) \<in> (parent_rel c)\<^sup>+} \<le> length (c_nodes c)"
proof -
  have "{a. (a, y) \<in> (parent_rel c)\<^sup>+} \<subseteq> set (c_nodes c)"
    using parent_rel_subset [OF cl] by (auto dest!: tranclD)
  then have "card {a. (a, y) \<in> (parent_rel c)\<^sup>+} \<le> card (set (c_nodes c))"
    by (intro card_mono) simp_all
  also have "\<dots> \<le> length (c_nodes c)" by (rule card_length)
  finally show ?thesis .
qed

lemma last_pushed:
  "U \<noteq> [] \<Longrightarrow> last (rest @ concat (map (\<lambda>p. [x, p]) U)) = last U"
proof (induction U rule: rev_induct)
  case Nil
  then show ?case by simp
next
  case (snoc u U)
  show ?case by simp
qed

lemma last_pushed':
  "U \<noteq> [] \<Longrightarrow> last (concat (map (\<lambda>p. [x, p]) U)) = last U"
  using last_pushed [of U "[]" x] by simp

lemma sort_step_decreases:
  assumes inv: "sort_inv c t" and ne: "fst t \<noteq> []" and cl: "closed_graph c"
    and ac: "acyclic (parent_rel c)"
  shows "(sort_measure c (level_step (c_heap c) t), sort_measure c t)
           \<in> less_than <*lex*> less_than"
proof -
  obtain stack lv lbi where t: "t = (stack, lv, lbi)" by (cases t)
  let ?x = "last stack" and ?rest = "butlast stack" and ?h = "c_heap c"
  from ne t have st: "stack = ?rest @ [?x]" by simp
  from inv t st have xV: "?x \<in> set (c_nodes c)"
    by (metis fst_conv in_set_conv_decomp sort_inv_def subsetD)
  have drop: "card (set (c_nodes c) - dom (lbi(?x \<mapsto> l))) < card (set (c_nodes c) - dom lbi)"
    if "lbi ?x = None" for l
  proof (rule psubset_card_mono)
    show "finite (set (c_nodes c) - dom lbi)" by simp
    from that xV show "set (c_nodes c) - dom (lbi(?x \<mapsto> l)) \<subset> set (c_nodes c) - dom lbi"
      by auto
  qed
  show ?thesis
  proof (cases "lbi ?x \<noteq> None")
    case True
    have "(if ?rest = [] then 0
           else if lbi (last ?rest) \<noteq> None then Suc (length (c_nodes c)) + length ?rest
           else card {a. (a, last ?rest) \<in> (parent_rel c)\<^sup>+})
          < Suc (length (c_nodes c)) + length stack"
      using rank_le [OF cl, of "last ?rest"] ne t by (auto simp: less_Suc_eq_le)
    with True ne t show ?thesis
      by (auto simp: level_step_def sort_measure_def split: if_splits)
  next
    case False
    then have x: "lbi ?x = None" by simp
    show ?thesis
    proof (cases "parents_of ?h ?x = []")
      case True
      with x drop [OF x] t show ?thesis
        by (simp add: level_step_def sort_measure_def set_level_def)
    next
      case ps: False
      show ?thesis
      proof (cases "unexplored lbi (parents_of ?h ?x) = []")
        case True
        with x ps drop [OF x] t show ?thesis
          by (simp add: level_step_def sort_measure_def set_level_def)
      next
        case False
        let ?U = "unexplored lbi (parents_of ?h ?x)"
        from False have lu: "last ?U \<in> set ?U" by simp
        then have un: "lbi (last ?U) = None" and pa: "last ?U \<in> set (parents_of ?h ?x)"
          by (simp_all add: unexplored_def)
        from pa xV have "(last ?U, ?x) \<in> parent_rel c" by (simp add: parent_rel_def)
        from rank_less [OF finite_parent_rel [OF cl] ac this]
        have "card {a. (a, last ?U) \<in> (parent_rel c)\<^sup>+} < card {a. (a, ?x) \<in> (parent_rel c)\<^sup>+}" .
        with x ps False un ne t show ?thesis
          by (simp add: level_step_def sort_measure_def last_pushed last_pushed')
      qed
    qed
  qed
qed

lemma sort_inv_init:
  assumes cl: "closed_graph c" and ac: "acyclic (parent_rel c)"
  shows "sort_inv c (sinks c, [], Map.empty)"
proof -
  have "set (sinks c) \<subseteq> set (c_nodes c)" by (auto simp: sinks_def)
  with sink_below [OF cl ac] show ?thesis by (simp add: sort_inv_def)
qed

lemma distinct_groups:
  fixes gs :: "(nat \<times> nat list) list"
  assumes "distinct (map fst gs)"
    and "\<forall>g \<in> set gs. distinct (F g) \<and> set (F g) = set (snd g)"
    and "\<forall>g \<in> set gs. \<forall>g' \<in> set gs. \<forall>n. n \<in> set (snd g) \<longrightarrow> n \<in> set (snd g') \<longrightarrow> fst g = fst g'"
  shows "distinct (concat (map F gs))"
  using assms
proof (induction gs)
  case Nil
  show ?case by simp
next
  case (Cons g gs)
  have d1: "distinct (map fst gs)"
    using Cons.prems(1) by simp
  have d2: "\<forall>g \<in> set gs. distinct (F g) \<and> set (F g) = set (snd g)"
    using Cons.prems(2) by simp
  have d3: "\<forall>g \<in> set gs. \<forall>g' \<in> set gs. \<forall>n.
      n \<in> set (snd g) \<longrightarrow> n \<in> set (snd g') \<longrightarrow> fst g = fst g'"
  proof (intro ballI allI impI)
    fix g1 g2 :: "nat \<times> nat list" and n
    assume "g1 \<in> set gs" "g2 \<in> set gs" and n: "n \<in> set (snd g1)" "n \<in> set (snd g2)"
    then have "g1 \<in> set (g # gs)" "g2 \<in> set (g # gs)" by simp_all
    with Cons.prems(3) n show "fst g1 = fst g2" by blast
  qed
  have ih: "distinct (concat (map F gs))"
    using d1 d2 d3 by (rule Cons.IH)
  have "set (F g) \<inter> set (concat (map F gs)) = {}"
  proof (rule ccontr)
    assume "set (F g) \<inter> set (concat (map F gs)) \<noteq> {}"
    then obtain n g' where n: "n \<in> set (F g)" and g': "g' \<in> set gs" "n \<in> set (F g')"
      by auto
    from Cons.prems(2) n have ng: "n \<in> set (snd g)" by simp
    from d2 g' have ng': "n \<in> set (snd g')" by simp
    have "g \<in> set (g # gs)" "g' \<in> set (g # gs)" using g' by simp_all
    with Cons.prems(3) ng ng' have "fst g = fst g'" by blast
    moreover from g' have "fst g' \<in> set (map fst gs)" by simp
    ultimately show False using Cons.prems(1) by simp
  qed
  with ih Cons.prems(2) show ?case by simp
qed

lemma set_sorted_level [simp]: "set (sorted_level h g) = set (snd g)"
  by (simp add: sorted_level_def)

lemma distinct_sorted_level [simp]: "distinct (sorted_level h g) = distinct (snd g)"
  by (simp add: sorted_level_def)

lemma set_emission_order: "set (emission_order h lv) = {n. \<exists>l. in_level lv l n}"
proof -
  have "set (emission_order h lv) = (\<Union>g \<in> set lv. set (snd g))"
    by (simp add: emission_order_def)
  also have "\<dots> = {n. \<exists>l. in_level lv l n}"
    by (force simp: in_level_def)
  finally show ?thesis .
qed

subsection \<open>The edge sort does not raise on an acyclic graph\<close>

text \<open>The comparisons of \<^verbatim>\<open>Node.__eq__\<close> descend along the outgoing edges; where every
  edge goes to a node of smaller rank, a depth above the rank of the first node is
  enough, and \<^verbatim>\<open>self.nodes.index\<close> finds every node of the list.\<close>

definition descending :: "(nat \<rightharpoonup> tnode) \<Rightarrow> nat set \<Rightarrow> (nat \<Rightarrow> nat) \<Rightarrow> bool" where
  "descending h V rk \<longleftrightarrow>
     (\<forall>n \<in> V. \<forall>e \<in> set (tn_outgoing (the_tnode h n)). te_child e \<in> V \<and> rk (te_child e) < rk n)"

lemma node_eq_fuel:
  "descending h V rk \<Longrightarrow> a \<in> V \<Longrightarrow> rk a < k \<Longrightarrow> node_eq k h a b \<noteq> None"
  "descending h V rk \<Longrightarrow> \<forall>e \<in> set es. te_child e \<in> V \<and> rk (te_child e) < k
     \<Longrightarrow> edges_eq k h es fs \<noteq> None"
proof (induction k h a b and k h es fs rule: node_eq_edges_eq.induct)
  case (1 h a b)
  then show ?case by simp
next
  case (2 k h a b)
  have "\<forall>e \<in> set (tn_outgoing (the_tnode h a)). te_child e \<in> V \<and> rk (te_child e) < k"
    using "2.prems" by (fastforce simp: descending_def)
  then have "\<not> tn_text (the_tnode h a) \<noteq> tn_text (the_tnode h b) \<Longrightarrow>
      \<not> length (tn_outgoing (the_tnode h a)) \<noteq> length (tn_outgoing (the_tnode h b)) \<Longrightarrow>
      edges_eq k h (tn_outgoing (the_tnode h a)) (tn_outgoing (the_tnode h b)) \<noteq> None"
    using "2.IH" "2.prems"(1) by blast
  then show ?case by auto
next
  case (3 k h fs)
  show ?case by simp
next
  case (4 k h e es)
  show ?case by simp
next
  case (5 k h e es f fs)
  from "5.prems" have rest: "\<forall>e \<in> set es. te_child e \<in> V \<and> rk (te_child e) < k"
    and hd: "te_child e \<in> V" "rk (te_child e) < k"
    by simp_all
  show ?case
  proof (cases "e = f")
    case True
    with "5.IH"(1) [OF True "5.prems"(1) rest] show ?thesis by simp
  next
    case False
    from "5.IH"(2) [OF False "5.prems"(1) hd]
    obtain s where s: "node_eq k h (te_child e) (te_child f) = Some s" by blast
    show ?thesis
    proof (cases "s \<and> te_tag e = te_tag f \<and> te_remote e = te_remote f")
      case True
      from "5.IH"(3) [OF False s True "5.prems"(1) rest] False s True show ?thesis by simp
    next
      case no: False
      with False s show ?thesis by auto
    qed
  qed
qed


lemma nodes_index_returns:
  assumes d: "descending h V rk" and b: "\<forall>n \<in> V. rk n < k"
  shows "set ns \<subseteq> V \<Longrightarrow> x \<in> set ns \<Longrightarrow> \<exists>j. nodes_index k h ns x i = Inr j"
proof (induction ns arbitrary: i)
  case Nil
  then show ?case by simp
next
  case (Cons y ys)
  show ?case
  proof (cases "y = x")
    case True
    then show ?thesis by simp
  next
    case False
    from Cons.prems(1) b have "y \<in> V" "rk y < k" by simp_all
    with node_eq_fuel(1) [OF d] obtain s where s: "node_eq k h y x = Some s" by blast
    from False Cons.prems have "set ys \<subseteq> V" "x \<in> set ys" by auto
    from Cons.IH [OF this] obtain j where "nodes_index k h ys x (Suc i) = Inr j" by blast
    with False s show ?thesis by simp
  qed
qed

lemma end_key_returns:
  assumes "descending h V rk" and "\<forall>n \<in> V. rk n < k" and "set ns \<subseteq> V" and "x \<in> set ns"
  shows "\<exists>j. end_key k h ns x = Inr j"
  using nodes_index_returns [OF assms, of 0]
  by (auto simp: end_key_def split: option.splits)

lemma keyed_returns:
  "\<forall>x \<in> set xs. \<exists>j. f x = Inr j \<Longrightarrow> \<exists>ks. keyed f xs = Inr ks \<and> map snd ks = xs"
proof (induction xs)
  case Nil
  show ?case by simp
next
  case (Cons x xs)
  from Cons.prems obtain j where j: "f x = Inr j" by auto
  from Cons.prems have "\<forall>x \<in> set xs. \<exists>j. f x = Inr j" by simp
  from Cons.IH [OF this] obtain ks where "keyed f xs = Inr ks" "map snd ks = xs" by blast
  with j show ?case by simp
qed

lemma sort_by_returns:
  assumes "\<forall>x \<in> set xs. \<exists>j. f x = Inr j"
  shows "\<exists>ys. sort_by f xs = Inr ys \<and> set ys = set xs"
proof -
  from keyed_returns [OF assms] obtain ks where ks: "keyed f xs = Inr ks" "map snd ks = xs"
    by blast
  have "set (map snd (sort_key fst ks)) = set (map snd ks)" by simp
  with ks show ?thesis by (simp add: sort_by_def)
qed

definition well_ranked :: "(nat \<rightharpoonup> tnode) \<Rightarrow> nat set \<Rightarrow> (nat \<Rightarrow> nat) \<Rightarrow> nat \<Rightarrow> bool" where
  "well_ranked h V rk k \<longleftrightarrow>
     descending h V rk \<and> (\<forall>n \<in> V. rk n < k) \<and>
     (\<forall>n \<in> V. \<forall>e \<in> set (tn_incoming (the_tnode h n)). te_parent e \<in> V)"

lemma the_tnode_set_tn_outgoing:
  "the_tnode (set_tn_outgoing n es h) m =
     (if m = n then (the_tnode h n)\<lparr>tn_outgoing := es\<rparr> else the_tnode h m)"
  by (simp add: set_tn_outgoing_def the_tnode_def)

lemma the_tnode_set_tn_incoming:
  "the_tnode (set_tn_incoming n es h) m =
     (if m = n then (the_tnode h n)\<lparr>tn_incoming := es\<rparr> else the_tnode h m)"
  by (simp add: set_tn_incoming_def the_tnode_def)

lemma well_ranked_set_outgoing:
  assumes "well_ranked h V rk k" and "set es \<subseteq> set (tn_outgoing (the_tnode h n))"
  shows "well_ranked (set_tn_outgoing n es h) V rk k"
  using assms
  by (auto simp: well_ranked_def descending_def the_tnode_set_tn_outgoing)

lemma well_ranked_set_incoming:
  assumes "well_ranked h V rk k" and "set es \<subseteq> set (tn_incoming (the_tnode h n))"
  shows "well_ranked (set_tn_incoming n es h) V rk k"
  using assms
  by (auto simp: well_ranked_def descending_def the_tnode_set_tn_incoming)

lemma sort_incoming_of_returns:
  assumes w: "well_ranked h V rk k" and ns: "set ns = V" and n: "n \<in> V"
  shows "\<exists>h'. sort_incoming_of k ns n h = Inr h' \<and> well_ranked h' V rk k"
proof -
  let ?h0 = "set_tn_incoming n [] h"
  have w0: "well_ranked ?h0 V rk k"
    using w by (rule well_ranked_set_incoming) simp
  have "\<forall>e \<in> set (tn_incoming (the_tnode h n)). \<exists>j. parent_key k ?h0 ns e = Inr j"
  proof
    fix e
    assume "e \<in> set (tn_incoming (the_tnode h n))"
    with w n have "te_parent e \<in> set ns" by (simp add: well_ranked_def ns)
    with w0 ns show "\<exists>j. parent_key k ?h0 ns e = Inr j"
      unfolding parent_key_def
      by (intro end_key_returns [where V = V and rk = rk]) (simp_all add: well_ranked_def)
  qed
  from sort_by_returns [OF this] obtain es
    where es: "sort_by (parent_key k ?h0 ns) (tn_incoming (the_tnode h n)) = Inr es"
      "set es = set (tn_incoming (the_tnode h n))"
    by blast
  have "well_ranked (set_tn_incoming n es h) V rk k"
    using w by (rule well_ranked_set_incoming) (simp add: es)
  with es show ?thesis by (simp add: sort_incoming_of_def)
qed

lemma sort_edges_of_returns:
  assumes w: "well_ranked h V rk k" and ns: "set ns = V" and n: "n \<in> V"
  shows "\<exists>h'. sort_edges_of k ns n h = Inr h' \<and> well_ranked h' V rk k"
proof -
  let ?h0 = "set_tn_outgoing n [] h"
  have w0: "well_ranked ?h0 V rk k"
    using w by (rule well_ranked_set_outgoing) simp
  have "\<forall>e \<in> set (tn_outgoing (the_tnode h n)). \<exists>j. child_key k ?h0 ns e = Inr j"
  proof
    fix e
    assume "e \<in> set (tn_outgoing (the_tnode h n))"
    with w n have "te_child e \<in> set ns" by (simp add: well_ranked_def descending_def ns)
    with w0 ns show "\<exists>j. child_key k ?h0 ns e = Inr j"
      unfolding child_key_def
      by (intro end_key_returns [where V = V and rk = rk]) (simp_all add: well_ranked_def)
  qed
  from sort_by_returns [OF this] obtain es
    where es: "sort_by (child_key k ?h0 ns) (tn_outgoing (the_tnode h n)) = Inr es"
      "set es = set (tn_outgoing (the_tnode h n))"
    by blast
  have "well_ranked (set_tn_outgoing n es h) V rk k"
    using w by (rule well_ranked_set_outgoing) (simp add: es)
  from sort_incoming_of_returns [OF this ns n] es show ?thesis
    by (simp add: sort_edges_of_def)
qed

lemma sort_all_edges_returns:
  assumes ns: "set ns = V"
  shows "well_ranked h V rk k \<Longrightarrow> set rest \<subseteq> V \<Longrightarrow> \<exists>h'. sort_all_edges k ns rest h = Inr h'"
proof (induction rest arbitrary: h)
  case Nil
  show ?case by simp
next
  case (Cons n rest)
  from Cons.prems have n: "n \<in> V" and r: "set rest \<subseteq> V" by simp_all
  from sort_edges_of_returns [OF Cons.prems(1) ns n] obtain h1
    where h1: "sort_edges_of k ns n h = Inr h1" "well_ranked h1 V rk k" by blast
  from Cons.IH [OF h1(2) r] h1(1) show ?case by simp
qed

lemma well_ranked_init:
  assumes cl: "closed_graph c" and ac: "acyclic (parent_rel c)"
  shows "well_ranked (c_heap c) (set (c_nodes c))
           (\<lambda>n. card {a. (a, n) \<in> ((parent_rel c)\<inverse>)\<^sup>+}) (depth_bound c)"
proof -
  let ?R = "(parent_rel c)\<inverse>"
  have fin: "finite ?R" using finite_parent_rel [OF cl] by simp
  have acr: "acyclic ?R" using ac by simp
  have sub: "?R \<subseteq> set (c_nodes c) \<times> set (c_nodes c)"
    using parent_rel_subset [OF cl] by auto
  have bound: "card {a. (a, n) \<in> ?R\<^sup>+} < depth_bound c" for n
  proof -
    have "{a. (a, n) \<in> ?R\<^sup>+} \<subseteq> set (c_nodes c)"
      using sub by (auto dest!: tranclD)
    then have "card {a. (a, n) \<in> ?R\<^sup>+} \<le> card (set (c_nodes c))"
      by (intro card_mono) simp_all
    also have "\<dots> \<le> length (c_nodes c)" by (rule card_length)
    finally show ?thesis by (simp add: depth_bound_def)
  qed
  have desc: "te_child e \<in> set (c_nodes c) \<and>
      card {a. (a, te_child e) \<in> ?R\<^sup>+} < card {a. (a, n) \<in> ?R\<^sup>+}"
    if n: "n \<in> set (c_nodes c)" and e: "e \<in> set (tn_outgoing (the_tnode (c_heap c) n))" for n e
  proof -
    from cl n e have ch: "te_child e \<in> set (c_nodes c)"
      and pa: "n \<in> set (parents_of (c_heap c) (te_child e))"
      by (auto simp: closed_graph_def)
    then have "(te_child e, n) \<in> ?R" by (simp add: parent_rel_def)
    from rank_less [OF fin acr this] ch show ?thesis by simp
  qed
  have inc: "te_parent e \<in> set (c_nodes c)"
    if "n \<in> set (c_nodes c)" and "e \<in> set (tn_incoming (the_tnode (c_heap c) n))" for n e
    using cl that by (auto simp: closed_graph_def parents_of_def)
  show ?thesis
    unfolding well_ranked_def descending_def
    using bound desc inc by blast
qed

lemma reorder_returns:
  assumes cl: "closed_graph c" and ac: "acyclic (parent_rel c)" and ns: "set ns = set (c_nodes c)"
  shows "\<exists>c1. reorder c ns = Inr c1 \<and> c_nodes c1 = ns"
proof -
  from sort_all_edges_returns [OF ns well_ranked_init [OF cl ac], of ns] ns
  obtain h' where "sort_all_edges (depth_bound c) ns ns (c_heap c) = Inr h'" by auto
  then show ?thesis by (simp add: reorder_def)
qed

subsection \<open>Levels and emission order\<close>

lemma acyclic_by_rank:
  fixes f :: "'a \<Rightarrow> nat"
  assumes "\<And>a b. (a, b) \<in> R \<Longrightarrow> f a < f b"
  shows "acyclic R"
proof -
  have "R \<subseteq> inv_image less_than f" using assms by auto
  moreover have "wf (inv_image less_than f)" by (intro wf_inv_image wf_less_than)
  ultimately have "wf R" by (rule wf_subset [rotated])
  then show ?thesis by (rule wf_acyclic)
qed

lemma gold_tree_lists:
  "c_nodes gold_tree = [0, 1, 2]"
  "tn_outgoing (the_tnode (c_heap gold_tree) 0) = []"
  "tn_outgoing (the_tnode (c_heap gold_tree) 1) = [new_edge 1 2 (Some ''C'') False]"
  "tn_outgoing (the_tnode (c_heap gold_tree) 2) = [new_edge 2 0 (Some ''A'') False]"
  "tn_incoming (the_tnode (c_heap gold_tree) 0) = [new_edge 2 0 (Some ''A'') False]"
  "tn_incoming (the_tnode (c_heap gold_tree) 1) = []"
  "tn_incoming (the_tnode (c_heap gold_tree) 2) = [new_edge 1 2 (Some ''C'') False]"
  "tn_outgoing (the_tnode (c_heap gold_tree) (Suc 0)) = [new_edge 1 2 (Some ''C'') False]"
  "tn_incoming (the_tnode (c_heap gold_tree) (Suc 0)) = []"
  by (simp_all add: gold_tree_def gold_token_def parse_eval)

lemma closed_gold_tree: "closed_graph gold_tree"
  by (simp add: closed_graph_def parents_of_def gold_tree_lists new_edge_def)

lemma acyclic_gold_tree: "acyclic (parent_rel gold_tree)"
proof (rule acyclic_by_rank)
  fix a b
  assume "(a, b) \<in> parent_rel gold_tree"
  then have "b \<in> {0, 1, 2}" and "a \<in> set (parents_of (c_heap gold_tree) b)"
    by (simp_all add: parent_rel_def gold_tree_lists)
  then show "(if a = 1 then 0 else if a = 2 then 1 else (2::nat))
      < (if b = 1 then 0 else if b = 2 then 1 else 2)"
    by (auto simp: parents_of_def gold_tree_lists new_edge_def)
qed

text \<open>
  Claim C7. Let the transient graph be closed (the ends of every edge are nodes of the
  configuration, and every edge in an outgoing list has its parent among the parents
  read off its child's incoming list, as \<^verbatim>\<open>Edge.add\<close> leaves the two lists) and
  acyclic. Then the loop of \<^verbatim>\<open>topological_sort\<close> returns; the edge sort does not raise
  and \<^verbatim>\<open>topological_sort\<close> returns with the emission order as the new node list; every
  node has a level, which is 0 when it has no incoming edge and otherwise 1 + the
  maximum of its parents' levels; the new node list has every node exactly once; and in
  it every parent of a node comes before the node.
\<close>

theorem topological_sort_levels:
  assumes cl: "closed_graph c" and ac: "acyclic (parent_rel c)"
  shows "\<exists>lv lbi c1.
           assign_levels c = Some (lv, lbi) \<and>
           topological_sort c = Some (Inr c1) \<and>
           c_nodes c1 = emission_order (c_heap c) lv \<and>
           (\<forall>n \<in> set (c_nodes c). lbi n = Some (level_of (c_heap c) lbi n)) \<and>
           set (c_nodes c1) = set (c_nodes c) \<and>
           distinct (c_nodes c1) \<and>
           (\<forall>n \<in> set (c_nodes c). \<forall>p \<in> set (parents_of (c_heap c) n).
              before (c_nodes c1) p n)"
proof -
  let ?h = "c_heap c" and ?V = "set (c_nodes c)"
  let ?R = "inv_image (less_than <*lex*> less_than) (sort_measure c)"
  have init: "sort_inv c (sinks c, [], Map.empty)"
    using cl ac by (rule sort_inv_init)
  have "wf ?R" by (intro wf_inv_image wf_lex_prod wf_less_than)
  then have "\<exists>r. level_loop ?h (sinks c, [], Map.empty) = Some r"
    using init
  proof (rule level_loop_terminates)
    fix t
    assume "sort_inv c t" and "fst t \<noteq> []"
    then show "sort_inv c (level_step ?h t) \<and> (level_step ?h t, t) \<in> ?R"
      using sort_inv_step [OF _ _ cl] sort_step_decreases [OF _ _ cl ac] by simp
  qed
  then obtain lv lbi where run: "level_loop ?h (sinks c, [], Map.empty) = Some (lv, lbi)"
    by (metis surj_pair)
  have fin: "sort_inv c ([], lv, lbi)"
    using run init
  proof (rule level_loop_invariant)
    fix t
    assume "sort_inv c t" and "fst t \<noteq> []"
    then show "sort_inv c (level_step ?h t)" using cl by (rule sort_inv_step)
  qed
  then have dV: "dom lbi \<subseteq> ?V"
    and i3: "\<forall>n l. lbi n = Some l \<longrightarrow>
        set (parents_of ?h n) \<subseteq> dom lbi \<and> l = level_of ?h lbi n"
    and i4: "\<forall>n l. in_level lv l n \<longleftrightarrow> lbi n = Some l"
    and i5: "distinct (map fst lv)" and i6: "\<forall>g \<in> set lv. distinct (snd g)"
    and i7: "\<forall>n \<in> ?V. lbi n \<noteq> None"
    by (simp_all add: sort_inv_def)
  have a1: "assign_levels c = Some (lv, lbi)"
    using run by (simp add: assign_levels_def)
  have a2: "\<forall>n \<in> ?V. lbi n = Some (level_of ?h lbi n)"
    using i3 i7 by fastforce
  have a3: "set (emission_order ?h lv) = ?V"
    using i4 i7 dV by (auto simp: set_emission_order)
  let ?gs = "sort_key fst lv"
  have gs: "set ?gs = set lv" by simp
  have uniq: "fst g = fst g'"
    if "g \<in> set lv" "g' \<in> set lv" "n \<in> set (snd g)" "n \<in> set (snd g')" for g g' n
  proof -
    from that have "in_level lv (fst g) n" "in_level lv (fst g') n"
      by (auto simp: in_level_def intro: exI [of _ "snd g"] exI [of _ "snd g'"])
    with i4 show ?thesis by simp
  qed
  have dk: "distinct (map fst ?gs)"
    using i5 by (metis distinct_map distinct_sort set_sort)
  have a4: "distinct (emission_order ?h lv)"
    unfolding emission_order_def
  proof (rule distinct_groups [OF dk])
    show "\<forall>g \<in> set ?gs. distinct (sorted_level ?h g) \<and> set (sorted_level ?h g) = set (snd g)"
      using i6 by simp
    show "\<forall>g \<in> set ?gs. \<forall>g' \<in> set ?gs. \<forall>n.
            n \<in> set (snd g) \<longrightarrow> n \<in> set (snd g') \<longrightarrow> fst g = fst g'"
      using uniq by (simp only: gs) blast
  qed
  have a5: "before (emission_order ?h lv) p n"
    if n: "n \<in> ?V" and p: "p \<in> set (parents_of ?h n)" for n p
  proof -
    from i7 n obtain ln where ln: "lbi n = Some ln" by auto
    with i3 p have "p \<in> dom lbi" and lev: "ln = level_of ?h lbi n" by blast+
    then obtain lp where lp: "lbi p = Some lp" by auto
    from p have "the (lbi p) \<in> set (parent_levels ?h lbi n)"
      by (simp add: parent_levels_def)
    then have "lp \<le> maximum (parent_levels ?h lbi n)"
      using lp maximum_ge by simp
    moreover from p have "parents_of ?h n \<noteq> []" by auto
    ultimately have less: "lp < ln"
      using lev by (simp add: level_of_def)
    from i4 lp obtain ps where ps: "(lp, ps) \<in> set lv" "p \<in> set ps"
      by (auto simp: in_level_def)
    from i4 ln obtain ns where ns: "(ln, ns) \<in> set lv" "n \<in> set ns"
      by (auto simp: in_level_def)
    show ?thesis
      unfolding emission_order_def
    proof (rule before_groups [where lp = lp and ln = ln])
      show "sorted (map fst ?gs)" by simp
      show "\<forall>g \<in> set ?gs. set (sorted_level ?h g) = set (snd g)" by simp
      show "\<forall>g \<in> set ?gs. p \<in> set (snd g) \<longrightarrow> fst g = lp"
        using uniq [OF _ ps(1) _ _] ps(2) by (simp only: gs) fastforce
      show "\<exists>g \<in> set ?gs. p \<in> set (snd g)"
        using ps by (simp only: gs) force
      show "\<exists>g \<in> set ?gs. fst g = ln \<and> n \<in> set (snd g)"
        using ns by (simp only: gs) force
      show "lp < ln" by (rule less)
    qed
  qed
  from reorder_returns [OF cl ac a3] obtain c1
    where c1: "reorder c (emission_order ?h lv) = Inr c1" "c_nodes c1 = emission_order ?h lv"
    by blast
  have a6: "topological_sort c = Some (Inr c1)"
    using a1 c1(1) by (simp add: topological_sort_def)
  have "assign_levels c = Some (lv, lbi) \<and>
        topological_sort c = Some (Inr c1) \<and>
        c_nodes c1 = emission_order ?h lv \<and>
        (\<forall>n \<in> ?V. lbi n = Some (level_of ?h lbi n)) \<and>
        set (c_nodes c1) = ?V \<and>
        distinct (c_nodes c1) \<and>
        (\<forall>n \<in> ?V. \<forall>p \<in> set (parents_of ?h n). before (c_nodes c1) p n)"
    using a1 a2 a3 a4 a5 a6 c1(2) by simp
  then show ?thesis by blast
qed

text \<open>The theorem at the configuration \<open>gold_tree\<close>: the root 1 has level 0, node 2
  level 1 and token 0 level 2; the root comes before node 2 and node 2 before the
  token.\<close>

theorem topological_sort_levels_witness:
  "closed_graph gold_tree \<and> acyclic (parent_rel gold_tree) \<and>
   (\<exists>lv lbi c1.
      assign_levels gold_tree = Some (lv, lbi) \<and>
      topological_sort gold_tree = Some (Inr c1) \<and>
      lbi 1 = Some 0 \<and> lbi 2 = Some 1 \<and> lbi 0 = Some 2 \<and>
      set (c_nodes c1) = {0, 1, 2} \<and> distinct (c_nodes c1) \<and>
      before (c_nodes c1) 1 2 \<and> before (c_nodes c1) 2 0)"
proof -
  from topological_sort_levels [OF closed_gold_tree acyclic_gold_tree]
  obtain lv lbi c1 where r: "assign_levels gold_tree = Some (lv, lbi)"
    "topological_sort gold_tree = Some (Inr c1)"
    "\<forall>n \<in> set (c_nodes gold_tree). lbi n = Some (level_of (c_heap gold_tree) lbi n)"
    "set (c_nodes c1) = set (c_nodes gold_tree)"
    "distinct (c_nodes c1)"
    "\<forall>n \<in> set (c_nodes gold_tree). \<forall>p \<in> set (parents_of (c_heap gold_tree) n).
       before (c_nodes c1) p n"
    by blast
  from r(3) have l1: "lbi 1 = Some 0"
    by (simp add: gold_tree_lists level_of_def parents_of_def)
  from r(3) have "lbi 2 = Some (level_of (c_heap gold_tree) lbi 2)"
    by (simp add: gold_tree_lists)
  with l1 have l2: "lbi 2 = Some 1"
    by (simp add: level_of_def parent_levels_def parents_of_def gold_tree_lists new_edge_def)
  from r(3) have "lbi 0 = Some (level_of (c_heap gold_tree) lbi 0)"
    by (simp add: gold_tree_lists)
  with l2 have l0: "lbi 0 = Some 2"
    by (simp add: level_of_def parent_levels_def parents_of_def gold_tree_lists new_edge_def)
  from r(6) have b12: "before (c_nodes c1) 1 2" and b20: "before (c_nodes c1) 2 0"
    by (simp_all add: gold_tree_lists parents_of_def new_edge_def)
  from r(4) have s: "set (c_nodes c1) = {0, 1, 2}"
    by (auto simp: gold_tree_lists)
  from r(1,2,5) l1 l2 l0 s b12 b20 closed_gold_tree acyclic_gold_tree show ?thesis
    by blast
qed

subsection \<open>What the finalizer refuses\<close>












definition shape :: "(nat \<rightharpoonup> tnode) \<Rightarrow> nat \<Rightarrow> string option \<times> tedge list" where
  "shape h m = (tn_text (the_tnode h m), tn_outgoing (the_tnode h m))"


lemma shape_set_tn_node [simp]: "shape (f_heap (set_tn_node n v s)) = shape (f_heap s)"
  by (auto simp: shape_def set_tn_node_def the_tnode_def fun_eq_iff)

lemma shape_logged [simp]: "shape (f_heap (logged b s)) = shape (f_heap s)"
  by (simp add: logged_def)

lemma shape_new_unit [simp]: "shape (f_heap (new_unit s)) = shape (f_heap s)"
  by (simp add: new_unit_def)

lemma shape_remark [simp]: "shape (f_heap (remark n s)) = shape (f_heap s)"
  by (simp add: remark_def split: option.splits)



lemma shape_make_fnode [simp]: "shape (f_heap (make_fnode n parent tag s)) = shape (f_heap s)"
  by (simp add: make_fnode_def)








end
